theory Spec2Isabelle
  imports Complex_Main "HOL-Library.Word" "HOL-Library.Sublist" "HOL-Library.Multiset"
    "HOL-Library.Log_Nat"
begin

section \<open>Machine integers\<close>

text \<open>The sources compute with \<^verbatim>\<open>size_t\<close>, an unsigned 64-bit integer whose
  arithmetic wraps around.\<close>

type_synonym size_t = "64 word"

section \<open>LAMMPS data writer: canonical interaction types\<close>

text \<open>\<^verbatim>\<open>normalize_bond_type\<close>, \<^verbatim>\<open>normalize_angle_type\<close>,
  \<^verbatim>\<open>normalize_dihedral_type\<close> and \<^verbatim>\<open>normalize_improper_type\<close> of
  \<^verbatim>\<open>src/formats/LAMMPSData.cpp\<close>, branch by branch.\<close>

definition normalize_bond_type :: "size_t \<Rightarrow> size_t \<Rightarrow> size_t \<times> size_t" where
  "normalize_bond_type i j = (if i < j then (i, j) else (j, i))"

definition normalize_angle_type ::
  "size_t \<Rightarrow> size_t \<Rightarrow> size_t \<Rightarrow> size_t \<times> size_t \<times> size_t" where
  "normalize_angle_type i j k = (if i < k then (i, j, k) else (k, j, i))"

definition normalize_dihedral_type ::
  "size_t \<Rightarrow> size_t \<Rightarrow> size_t \<Rightarrow> size_t \<Rightarrow> size_t \<times> size_t \<times> size_t \<times> size_t" where
  "normalize_dihedral_type i j k m =
     (let max_ij = max i j; max_km = max k m in
      if max_ij = max_km then
        (if min i j < min k m then (i, j, k, m) else (m, k, j, i))
      else if max_ij < max_km then (i, j, k, m)
      else (m, k, j, i))"

text \<open>\<^verbatim>\<open>std::sort\<close> on the three-element array \<^verbatim>\<open>{i, k, m}\<close> is the
  ascending rearrangement, here \<^const>\<open>sort\<close>; the array always has three cells, so
  the indexed reads are in range.\<close>

definition normalize_improper_type ::
  "size_t \<Rightarrow> size_t \<Rightarrow> size_t \<Rightarrow> size_t \<Rightarrow> size_t \<times> size_t \<times> size_t \<times> size_t" where
  "normalize_improper_type i j k m =
     (let others = sort [i, k, m] in (others ! 0, j, others ! 1, others ! 2))"


section \<open>PDB reader: atom identifiers of CONECT records\<close>

text \<open>\<^verbatim>\<open>PDBFormat::atom_offsets_\<close> is filled by the first ATOM/HETATM record of a
  frame and by every TER record (\<^verbatim>\<open>src/formats/PDB.cpp\<close>). The numeric fields
  are read by \<^verbatim>\<open>parse\<close>, which is not part of the sources at hand: a record is
  given here by the outcome of that parse, \<^const>\<open>None\<close> when it raised.\<close>

datatype pdb_record =
    ATOM "int option"           \<comment> \<open>\<^verbatim>\<open>parse<long long>\<close> of columns 6..10\<close>
  | TER nat "size_t option"     \<comment> \<open>line length, \<^verbatim>\<open>parse<size_t>\<close> of columns 6..10\<close>

text \<open>The part of \<^verbatim>\<open>read_ATOM\<close> that touches \<^verbatim>\<open>atom_offsets_\<close>.\<close>

definition read_ATOM_offsets :: "size_t list \<Rightarrow> int option \<Rightarrow> size_t list" where
  "read_ATOM_offsets atom_offsets serial =
     (if atom_offsets = [] then
        (case serial of
           Some initial_offset \<Rightarrow>
             if initial_offset \<le> 0 then atom_offsets @ [0]
             else atom_offsets @ [word_of_int initial_offset - 1]
         | None \<Rightarrow> atom_offsets @ [0])
      else atom_offsets)"

text \<open>The TER case of \<^verbatim>\<open>read_next\<close>.\<close>

definition read_TER_offsets :: "size_t list \<Rightarrow> nat \<Rightarrow> size_t option \<Rightarrow> size_t list" where
  "read_TER_offsets atom_offsets line_size serial =
     (if line_size \<ge> 12 then
        (case serial of Some v \<Rightarrow> atom_offsets @ [v] | None \<Rightarrow> atom_offsets)
      else atom_offsets)"

fun track_offsets :: "size_t list \<Rightarrow> pdb_record list \<Rightarrow> size_t list" where
  "track_offsets atom_offsets [] = atom_offsets"
| "track_offsets atom_offsets (ATOM serial # rest) =
     track_offsets (read_ATOM_offsets atom_offsets serial) rest"
| "track_offsets atom_offsets (TER n serial # rest) =
     track_offsets (read_TER_offsets atom_offsets n serial) rest"

text \<open>\<^verbatim>\<open>std::lower_bound\<close> on the whole vector: the binary search of the standard
  library, which halves the range \<open>[first, first + len)\<close> around its middle element.
  On a sorted vector it finds the position of the first element that is not less than
  the value.\<close>

function lower_bound_loop :: "size_t list \<Rightarrow> size_t \<Rightarrow> nat \<Rightarrow> nat \<Rightarrow> nat" where
  "lower_bound_loop xs v first len =
     (if len = 0 then first
      else
        (let half = len div 2; middle = first + half in
         if xs ! middle < v then lower_bound_loop xs v (middle + 1) (len - half - 1)
         else lower_bound_loop xs v first half))"
  by pat_completeness auto
termination
  by (relation "measure (\<lambda>(xs, v, first, len). len)") auto

declare lower_bound_loop.simps [simp del]

definition lower_bound :: "size_t list \<Rightarrow> size_t \<Rightarrow> nat" where
  "lower_bound xs v = lower_bound_loop xs v 0 (length xs)"

text \<open>The lambda \<^verbatim>\<open>read_index\<close> of \<^verbatim>\<open>PDBFormat::read_CONECT\<close>, from the parsed
  identifier on (a failing parse raises a format error before any arithmetic). Both
  subtractions are on \<^verbatim>\<open>size_t\<close> and wrap. \<^verbatim>\<open>front()\<close> of an empty vector
  is undefined behaviour: the model has no result there.\<close>

definition read_index :: "size_t list \<Rightarrow> size_t \<Rightarrow> size_t option" where
  "read_index atom_offsets pdb_atom_id =
     (if atom_offsets = [] then None
      else Some (pdb_atom_id - of_nat (lower_bound atom_offsets pdb_atom_id) - hd atom_offsets))"


section \<open>LAMMPS data writer: molecule ids\<close>

text \<open>\<^verbatim>\<open>guess_molecules\<close> of \<^verbatim>\<open>src/formats/LAMMPSData.cpp\<close>. Atom indices and molecule
  ids are \<^verbatim>\<open>size_t\<close> values below the number of atoms; the function only compares
  and copies them, so they are natural numbers here.

  The body of the loop over the bonds: the bigger of the two ids is replaced by the
  smaller one in the whole vector.\<close>

definition merge_bond :: "nat list \<Rightarrow> nat \<times> nat \<Rightarrow> nat list" where
  "merge_bond molids bond =
     (let i = fst bond; j = snd bond;
          new_id = (if molids ! i > molids ! j then molids ! j else molids ! i);
          old_id = (if molids ! i > molids ! j then molids ! i else molids ! j)
      in map (\<lambda>molid. if molid = old_id then new_id else molid) molids)"

text \<open>The loop over the bonds. \<^verbatim>\<open>molids[i]\<close> with an index outside the vector is
  undefined behaviour in the source (a topology never holds such a bond): the model
  has no result there.\<close>

fun merge_bonds :: "nat list \<Rightarrow> (nat \<times> nat) list \<Rightarrow> nat list option" where
  "merge_bonds molids [] = Some molids"
| "merge_bonds molids (bond # bonds) =
     (if fst bond < length molids \<and> snd bond < length molids
      then merge_bonds (merge_bond molids bond) bonds
      else None)"

text \<open>The renumbering loop. \<^verbatim>\<open>molids_mapping\<close> is an \<^verbatim>\<open>unordered_map\<close> that only
  grows by keys it does not hold yet: an association list in insertion order, whose
  length is the size of the map.\<close>

fun compact_molids :: "(nat \<times> nat) list \<Rightarrow> nat list \<Rightarrow> nat list" where
  "compact_molids molids_mapping [] = []"
| "compact_molids molids_mapping (molid # rest) =
     (case map_of molids_mapping molid of
        Some v \<Rightarrow> v # compact_molids molids_mapping rest
      | None \<Rightarrow>
          (let new_id = length molids_mapping
           in new_id # compact_molids (molids_mapping @ [(molid, new_id)]) rest))"

definition guess_molecules :: "nat \<Rightarrow> (nat \<times> nat) list \<Rightarrow> nat list option" where
  "guess_molecules natoms bonds =
     (case merge_bonds [0..<natoms] bonds of
        None \<Rightarrow> None
      | Some molids \<Rightarrow> Some (compact_molids [] molids))"

text \<open>What the result is measured against: two atoms are connected when a path of
  bonds, taken in either direction, leads from one to the other.\<close>

definition connected :: "(nat \<times> nat) list \<Rightarrow> (nat \<times> nat) set" where
  "connected bonds = (set bonds \<union> (set bonds)\<inverse>)\<^sup>*"

text \<open>The molecules of a frame with \<open>natoms\<close> atoms: the classes of its atoms.\<close>

definition molecules :: "nat \<Rightarrow> (nat \<times> nat) list \<Rightarrow> nat set set" where
  "molecules natoms bonds =
     (\<lambda>a. {b. b < natoms \<and> (a, b) \<in> connected bonds}) ` {0..<natoms}"

text \<open>The position of the first occurrence of a value in a list.\<close>

fun first_index :: "'a list \<Rightarrow> 'a \<Rightarrow> nat" where
  "first_index [] x = 0"
| "first_index (y # ys) x = (if x = y then 0 else Suc (first_index ys x))"

text \<open>The distinct values of a list in the order of their first occurrence, after the
  values already known.\<close>

fun first_seen :: "'a list \<Rightarrow> 'a list \<Rightarrow> 'a list" where
  "first_seen ks [] = ks"
| "first_seen ks (x # xs) = (if x \<in> set ks then first_seen ks xs else first_seen (ks @ [x]) xs)"

text \<open>The invariant of the loop over the bonds: the vector has one id per atom, and
  two atoms carry the same id exactly when the relation \<open>R\<close> built from the bonds
  merged so far connects them.\<close>

definition agrees :: "nat \<Rightarrow> nat list \<Rightarrow> (nat \<times> nat) set \<Rightarrow> bool" where
  "agrees n molids R \<longleftrightarrow>
     length molids = n \<and> (\<forall>a<n. \<forall>b<n. molids ! a = molids ! b \<longleftrightarrow> (a, b) \<in> R\<^sup>*)"


section \<open>PDB reader: bonds of standard residues\<close>

text \<open>\<^verbatim>\<open>PDBFormat::link_standard_residue_bonds\<close> of \<^verbatim>\<open>src/formats/PDB.cpp\<close>. A residue
  is given by what the function reads of it: its name, its optional numeric id
  (\<^verbatim>\<open>optional<uint64_t>\<close>) and the indices of its atoms in iteration order. The frame
  is given by the names of its atoms, \<^verbatim>\<open>frame[atom].name()\<close>; a residue of a frame
  only holds indices of atoms of that frame.\<close>

record residue =
  res_name :: string
  res_id :: "64 word option"
  res_atoms :: "nat list"

text \<open>The local variables that live across the loop over the residues, and the calls
  \<^verbatim>\<open>frame.add_bond(i, j)\<close> made so far, in order. \<^verbatim>\<open>Frame::add_bond\<close> itself is not
  part of the sources at hand.\<close>

record link_state =
  link_previous_peptide :: bool
  link_previous_nucleic :: bool
  previous_residue_id :: "64 word"
  previous_carboxylic_id :: nat
  added_bonds :: "(nat \<times> nat) list"

definition add_bond :: "nat \<Rightarrow> nat \<Rightarrow> link_state \<Rightarrow> link_state" where
  "add_bond i j s = s\<lparr>added_bonds := added_bonds s @ [(i, j)]\<rparr>"

text \<open>The atom names the function looks up. \<^verbatim>\<open>"O3'"\<close>, \<^verbatim>\<open>"HO5'"\<close> and \<^verbatim>\<open>"O5'"\<close> end
  with an apostrophe, character 39.\<close>

definition three_prime_oxygen_name :: string where
  "three_prime_oxygen_name = ''O3'' @ [CHR 0x27]"

definition HO5_prime_name :: string where
  "HO5_prime_name = ''HO5'' @ [CHR 0x27]"

definition O5_prime_name :: string where
  "O5_prime_name = ''O5'' @ [CHR 0x27]"

text \<open>\<^verbatim>\<open>atom_name_to_index\<close>, a \<^verbatim>\<open>std::map\<close> filled by assignment: of two atoms with
  the same name the later one stays.\<close>

definition atom_name_to_index :: "string list \<Rightarrow> nat list \<Rightarrow> (string \<rightharpoonup> nat)" where
  "atom_name_to_index names atoms =
     fold (\<lambda>atom m. m(names ! atom \<mapsto> atom)) atoms Map.empty"

text \<open>The loop over the template of the residue: a bond for every pair both of whose
  names the residue has. A missing name only sends a warning.\<close>

fun link_template ::
  "(string \<rightharpoonup> nat) \<Rightarrow> (string \<times> string) list \<Rightarrow> link_state \<Rightarrow> link_state" where
  "link_template m [] s = s"
| "link_template m (link # links) s =
     (case m (fst link) of
        None \<Rightarrow> link_template m links s
      | Some first_atom \<Rightarrow>
          (case m (snd link) of
             None \<Rightarrow> link_template m links s
           | Some second_atom \<Rightarrow> link_template m links (add_bond first_atom second_atom s)))"

text \<open>The body of the loop over the residues. \<open>find_table\<close> stands for
  \<^verbatim>\<open>PDBConnectivity::find\<close>, a table that is not part of the sources at hand.
  The result is \<^const>\<open>None\<close> where the source dereferences the end iterator of the
  map, which is undefined behaviour. \<^verbatim>\<open>atom_name_to_index["O5'"]\<close> inserts the
  index 0 when the residue has no such atom.\<close>

definition link_residue ::
  "(string \<Rightarrow> (string \<times> string) list option) \<Rightarrow> string list \<Rightarrow> link_state \<Rightarrow> residue
     \<Rightarrow> link_state option" where
  "link_residue find_table names s residue =
     (case find_table (res_name residue) of
        None \<Rightarrow> Some s
      | Some residue_table \<Rightarrow>
          (let m = atom_name_to_index names (res_atoms residue);
               amide_nitrogen = m ''N'';
               amide_carbon = m ''C''
           in case res_id residue of
                None \<Rightarrow> Some s
              | Some resid \<Rightarrow>
                  (let s1 = (case amide_nitrogen of
                               Some n \<Rightarrow>
                                 if link_previous_peptide s \<and> resid = previous_residue_id s + 1
                                 then add_bond (previous_carboxylic_id s) n
                                        (s\<lparr>link_previous_peptide := False\<rparr>)
                                 else s
                             | None \<Rightarrow> s);
                       s2 = (case amide_carbon of
                               Some c \<Rightarrow> s1\<lparr>link_previous_peptide := True,
                                              previous_carboxylic_id := c,
                                              previous_residue_id := resid\<rparr>
                             | None \<Rightarrow> s1);
                       three_prime_oxygen = m three_prime_oxygen_name;
                       five_prime_phospho = m ''P'';
                       s3 = (if link_previous_nucleic s2 \<and> five_prime_phospho \<noteq> None \<and>
                                resid = previous_residue_id s2 + 1
                             then (case three_prime_oxygen of
                                     None \<Rightarrow> None
                                   | Some ox \<Rightarrow>
                                       Some (add_bond (previous_carboxylic_id s2) ox
                                               (s2\<lparr>link_previous_nucleic := False\<rparr>)))
                             else Some s2)
                   in case s3 of
                        None \<Rightarrow> None
                      | Some s3 \<Rightarrow>
                          (let s4 = (case three_prime_oxygen of
                                       Some ox \<Rightarrow> s3\<lparr>link_previous_nucleic := True,
                                                       previous_carboxylic_id := ox,
                                                       previous_residue_id := resid\<rparr>
                                     | None \<Rightarrow> s3);
                               (m5, s5) = (case m HO5_prime_name of
                                       Some h \<Rightarrow>
                                         (case m O5_prime_name of
                                            Some ox5 \<Rightarrow> (m, add_bond h ox5 s4)
                                          | None \<Rightarrow> (m(O5_prime_name \<mapsto> 0), add_bond h 0 s4))
                                     | None \<Rightarrow> (m, s4))
                           in Some (link_template m5 residue_table s5)))))"

fun link_residues ::
  "(string \<Rightarrow> (string \<times> string) list option) \<Rightarrow> string list \<Rightarrow> link_state \<Rightarrow> residue list
     \<Rightarrow> link_state option" where
  "link_residues find_table names s [] = Some s"
| "link_residues find_table names s (residue # residues) =
     (case link_residue find_table names s residue of
        None \<Rightarrow> None
      | Some s' \<Rightarrow> link_residues find_table names s' residues)"

text \<open>The whole function: the bonds it adds to the frame, in order.\<close>

definition link_standard_residue_bonds ::
  "(string \<Rightarrow> (string \<times> string) list option) \<Rightarrow> string list \<Rightarrow> residue list
     \<Rightarrow> (nat \<times> nat) list option" where
  "link_standard_residue_bonds find_table names residues =
     map_option added_bonds
       (link_residues find_table names
          \<lparr>link_previous_peptide = False, link_previous_nucleic = False,
           previous_residue_id = 0, previous_carboxylic_id = 0, added_bonds = []\<rparr>
          residues)"

text \<open>A template table for the examples: every residue name is known and has no
  bond inside the residue.\<close>

definition bare_table :: "string \<Rightarrow> (string \<times> string) list option" where
  "bare_table name = Some []"


section \<open>The text stream\<close>

text \<open>The exceptions of the library that the sources at hand raise or catch.
  \<^verbatim>\<open>FileError\<close> and \<^verbatim>\<open>FormatError\<close> derive from \<^verbatim>\<open>Error\<close>; the two file errors of
  \<^verbatim>\<open>TextFormat::read_step\<close> are kept apart by their message.\<close>

datatype error =
    Error                       \<comment> \<open>any other \<^verbatim>\<open>Error\<close>, such as a failed \<^verbatim>\<open>parse\<close>\<close>
  | FileError                   \<comment> \<open>raised by the stream when no line is left\<close>
  | FormatError                 \<comment> \<open>\<^verbatim>\<open>format_error(...)\<close>\<close>
  | NoStepError nat             \<comment> \<open>"can not read file at step n, it does not contain any step"\<close>
  | MaximalStepError nat nat    \<comment> \<open>"can not read file at step n: maximal step is m"\<close>

text \<open>Modelled from the spec: the stream class \<^verbatim>\<open>TextFile\<close> (\<^verbatim>\<open>chemfiles/File.hpp\<close>) is
  missing from the sources. The spec describes it as a line-oriented stream with
  read-one-line, seek and tell by byte offset, and an end-of-stream query. The model is
  a byte string with a read position and the two state flags of \<^verbatim>\<open>std::istream\<close>,
  whose members \<^verbatim>\<open>tellg\<close>, \<^verbatim>\<open>seekg\<close>, \<^verbatim>\<open>eof\<close>, \<^verbatim>\<open>clear\<close> and \<^verbatim>\<open>operator bool\<close> the
  sources call; reading a line when none is left raises \<^verbatim>\<open>FileError\<close>, as the handlers
  in \<^verbatim>\<open>GROFormat::forward\<close> expect ("No more line left in the file").\<close>

record text_file =
  content :: string
  pos :: nat
  eofbit :: bool
  failbit :: bool

text \<open>A computation on the stream returns the stream as it leaves it, and either the
  exception it raised or its value.\<close>

type_synonym 'a io = "text_file \<times> (error + 'a)"

text \<open>Modelled from the spec: the members of the stream that the sources call, which
  are missing with the class. The flags behave as those of \<^verbatim>\<open>std::istream\<close>:
  \<^verbatim>\<open>operator bool\<close> is false on a failed stream, \<^verbatim>\<open>tellg\<close> answers -1 on a failed
  stream, \<^verbatim>\<open>clear\<close> resets both flags, \<^verbatim>\<open>seekg\<close> resets the end-of-file flag and
  then moves a stream that has not failed, and fails on a position outside the
  file.\<close>

definition good :: "text_file \<Rightarrow> bool" where
  "good f \<longleftrightarrow> \<not> failbit f"

definition eof :: "text_file \<Rightarrow> bool" where
  "eof f \<longleftrightarrow> eofbit f"

definition tellg :: "text_file \<Rightarrow> int" where
  "tellg f = (if failbit f then - 1 else int (pos f))"

definition clear :: "text_file \<Rightarrow> text_file" where
  "clear f = f\<lparr>eofbit := False, failbit := False\<rparr>"

definition seekg :: "int \<Rightarrow> text_file \<Rightarrow> text_file" where
  "seekg p f =
     (let f1 = f\<lparr>eofbit := False\<rparr> in
      if failbit f1 then f1
      else if 0 \<le> p \<and> nat p \<le> length (content f1) then f1\<lparr>pos := nat p\<rparr>
      else f1\<lparr>failbit := True\<rparr>)"

definition newline :: char where
  "newline = CHR 0x0A"

text \<open>Modelled from the spec: read-one-line, from which \<^verbatim>\<open>readline\<close>, \<^verbatim>\<open>skipline\<close>,
  \<^verbatim>\<open>skiplines\<close> and \<^verbatim>\<open>readlines\<close> are made. As \<^verbatim>\<open>std::getline\<close>, it fails on a
  stream with a flag set and at the end of the bytes, and it sets the end-of-file flag
  when it meets the end of the bytes before a newline. A failed read raises
  \<^verbatim>\<open>FileError\<close>.\<close>

definition getline :: "text_file \<Rightarrow> string io" where
  "getline f =
     (if failbit f \<or> eofbit f then (f\<lparr>failbit := True\<rparr>, Inl FileError)
      else
        (let rest = drop (pos f) (content f) in
         if rest = [] then (f\<lparr>eofbit := True, failbit := True\<rparr>, Inl FileError)
         else
           (let line = takeWhile (\<lambda>c. c \<noteq> newline) rest in
            if length line < length rest
            then (f\<lparr>pos := pos f + length line + 1\<rparr>, Inr line)
            else (f\<lparr>pos := pos f + length line, eofbit := True\<rparr>, Inr line))))"

definition readline :: "text_file \<Rightarrow> string io" where
  "readline f = getline f"

definition skipline :: "text_file \<Rightarrow> unit io" where
  "skipline f = (case getline f of (f', Inl e) \<Rightarrow> (f', Inl e) | (f', Inr _) \<Rightarrow> (f', Inr ()))"

fun skiplines :: "nat \<Rightarrow> text_file \<Rightarrow> unit io" where
  "skiplines 0 f = (f, Inr ())"
| "skiplines (Suc n) f =
     (case getline f of (f', Inl e) \<Rightarrow> (f', Inl e) | (f', Inr _) \<Rightarrow> skiplines n f')"

fun readlines :: "nat \<Rightarrow> text_file \<Rightarrow> string list io" where
  "readlines 0 f = (f, Inr [])"
| "readlines (Suc n) f =
     (case getline f of
        (f', Inl e) \<Rightarrow> (f', Inl e)
      | (f', Inr line) \<Rightarrow>
          (case readlines n f' of
             (f'', Inl e) \<Rightarrow> (f'', Inl e)
           | (f'', Inr lines) \<Rightarrow> (f'', Inr (line # lines))))"

text \<open>A file that has just been opened for reading.\<close>

definition open_file :: "string \<Rightarrow> text_file" where
  "open_file bytes = \<lparr>content = bytes, pos = 0, eofbit = False, failbit = False\<rparr>"

text \<open>The lines that are left to read: the bytes from the read position on, cut at
  every newline; bytes after the last newline form a last line.\<close>

fun lines_of :: "string \<Rightarrow> string \<Rightarrow> string list" where
  "lines_of line [] = (if line = [] then [] else [line])"
| "lines_of line (c # cs) =
     (if c = newline then line # lines_of [] cs else lines_of (line @ [c]) cs)"

definition lines_left :: "text_file \<Rightarrow> string list" where
  "lines_left f =
     (if failbit f \<or> eofbit f then [] else lines_of [] (drop (pos f) (content f)))"



section \<open>Step index of the text formats\<close>

text \<open>\<^verbatim>\<open>TextFormat\<close> of \<^verbatim>\<open>src/Format.cpp\<close>. The class leaves \<^verbatim>\<open>forward\<close>,
  \<^verbatim>\<open>read_next\<close> and \<^verbatim>\<open>write_next\<close> to the format: they are the fields of a record
  of functions on the stream. \<open>'fr\<close> is the type of frames.\<close>

record 'fr format_ops =
  forward :: "text_file \<Rightarrow> int io"
  read_next :: "text_file \<Rightarrow> 'fr io"
  write_next :: "'fr \<Rightarrow> text_file \<Rightarrow> unit io"

text \<open>The members of the class: the stream \<^verbatim>\<open>*file_\<close>, \<^verbatim>\<open>steps_positions_\<close> and
  \<^verbatim>\<open>eof_found_\<close>.\<close>

record text_format =
  stream :: text_file
  steps_positions :: "int list"
  eof_found :: bool

text \<open>An operation returns the object as it leaves it, and either the exception it
  raised or its value; \<^const>\<open>None\<close> stands for an operation that does not return.\<close>

type_synonym 'a outcome = "(text_format \<times> (error + 'a)) option"

text \<open>The loop of \<^verbatim>\<open>scan_all\<close>. The test \<^verbatim>\<open>if (!file_)\<close> inside the loop is applied
  to the owning pointer \<^verbatim>\<open>file_\<close>, not to the stream \<^verbatim>\<open>*file_\<close>; the constructor sets
  the pointer and nothing resets it, so the test never holds and the branch has no
  counterpart here.\<close>

partial_function (option) scan_loop :: "'fr format_ops \<Rightarrow> text_format \<Rightarrow> unit outcome" where
  "scan_loop fmt s =
     (if eof (stream s) then Some (s, Inr ())
      else
        (case forward fmt (stream s) of
           (f', Inl e) \<Rightarrow> Some (s\<lparr>stream := f'\<rparr>, Inl e)
         | (f', Inr position) \<Rightarrow>
             if position = - 1 then Some (s\<lparr>stream := f'\<rparr>, Inr ())
             else scan_loop fmt
                    (s\<lparr>stream := f', steps_positions := steps_positions s @ [position]\<rparr>)))"

declare scan_loop.simps [code]

text \<open>\<^verbatim>\<open>TextFormat::scan_all\<close>; \<open>before_scan\<close> is the local variable
  \<^verbatim>\<open>before\<close>.\<close>

definition scan_all :: "'fr format_ops \<Rightarrow> text_format \<Rightarrow> unit outcome" where
  "scan_all fmt s =
     (if eof_found s then Some (s, Inr ())
      else
        (let before_scan = tellg (stream s) in
         case scan_loop fmt s of
           None \<Rightarrow> None
         | Some (s1, Inl e) \<Rightarrow> Some (s1, Inl e)
         | Some (s1, Inr _) \<Rightarrow>
             (let s2 = s1\<lparr>eof_found := True, stream := clear (stream s1)\<rparr> in
              if before_scan = 0 \<and> steps_positions s2 \<noteq> []
              then Some (s2\<lparr>stream := seekg (steps_positions s2 ! 0) (stream s2)\<rparr>, Inr ())
              else Some (s2\<lparr>stream := seekg before_scan (stream s2)\<rparr>, Inr ()))))"

definition read_step :: "'fr format_ops \<Rightarrow> nat \<Rightarrow> text_format \<Rightarrow> 'fr outcome" where
  "read_step fmt step s =
     (case (if step \<ge> length (steps_positions s) then scan_all fmt s else Some (s, Inr ())) of
        None \<Rightarrow> None
      | Some (s1, Inl e) \<Rightarrow> Some (s1, Inl e)
      | Some (s1, Inr _) \<Rightarrow>
          if step \<ge> length (steps_positions s1) then
            (if length (steps_positions s1) = 0 then Some (s1, Inl (NoStepError step))
             else Some (s1, Inl (MaximalStepError step (length (steps_positions s1) - 1))))
          else
            (case read_next fmt (seekg (steps_positions s1 ! step) (stream s1)) of
               (f', Inl e) \<Rightarrow> Some (s1\<lparr>stream := f'\<rparr>, Inl e)
             | (f', Inr frame) \<Rightarrow> Some (s1\<lparr>stream := f'\<rparr>, Inr frame)))"

definition read :: "'fr format_ops \<Rightarrow> text_format \<Rightarrow> 'fr outcome" where
  "read fmt s =
     (let position = tellg (stream s) in
      case read_next fmt (stream s) of
        (f', Inl e) \<Rightarrow> Some (s\<lparr>stream := f'\<rparr>, Inl e)
      | (f', Inr frame) \<Rightarrow>
          Some (s\<lparr>stream := f', steps_positions := steps_positions s @ [position]\<rparr>, Inr frame))"

text \<open>\<^verbatim>\<open>TextFormat::write\<close>; the plain name is taken by the proof language.\<close>

definition write_frame :: "'fr format_ops \<Rightarrow> 'fr \<Rightarrow> text_format \<Rightarrow> unit outcome" where
  "write_frame fmt frame s =
     (case write_next fmt frame (stream s) of
        (f', Inl e) \<Rightarrow> Some (s\<lparr>stream := f'\<rparr>, Inl e)
      | (f', Inr _) \<Rightarrow>
          Some (s\<lparr>stream := f', steps_positions := steps_positions s @ [tellg f']\<rparr>, Inr ()))"

definition nsteps :: "'fr format_ops \<Rightarrow> text_format \<Rightarrow> nat outcome" where
  "nsteps fmt s =
     (case scan_all fmt s of
        None \<Rightarrow> None
      | Some (s1, Inl e) \<Rightarrow> Some (s1, Inl e)
      | Some (s1, Inr _) \<Rightarrow> Some (s1, Inr (length (steps_positions s1))))"

text \<open>The object as the constructor leaves it.\<close>

definition open_format :: "string \<Rightarrow> text_format" where
  "open_format bytes = \<lparr>stream = open_file bytes, steps_positions = [], eof_found = False\<rparr>"

text \<open>The operations a caller can apply to an open handle, and their effect on the
  object, whatever they return.\<close>

datatype 'fr operation = Read | ReadStep nat | Write 'fr | NSteps

definition state_after :: "'a outcome \<Rightarrow> text_format option" where
  "state_after r = map_option fst r"

fun apply_operation :: "'fr format_ops \<Rightarrow> 'fr operation \<Rightarrow> text_format \<Rightarrow> text_format option" where
  "apply_operation fmt Read s = state_after (read fmt s)"
| "apply_operation fmt (ReadStep n) s = state_after (read_step fmt n s)"
| "apply_operation fmt (Write frame) s = state_after (write_frame fmt frame s)"
| "apply_operation fmt NSteps s = state_after (nsteps fmt s)"

fun apply_operations ::
  "'fr format_ops \<Rightarrow> 'fr operation list \<Rightarrow> text_format \<Rightarrow> text_format option" where
  "apply_operations fmt [] s = Some s"
| "apply_operations fmt (operation # operations) s =
     (case apply_operation fmt operation s of
        None \<Rightarrow> None
      | Some s' \<Rightarrow> apply_operations fmt operations s')"

text \<open>The operations that reach the frames through the index only.\<close>

fun scans_only :: "'fr operation \<Rightarrow> bool" where
  "scans_only NSteps = True"
| "scans_only (ReadStep n) = True"
| "scans_only Read = False"
| "scans_only (Write frame) = False"

text \<open>What the index needs from the scanner of a format: a call that returns a
  position returns the offset at which it found the stream, and leaves the stream
  further on.\<close>

definition forward_advances :: "'fr format_ops \<Rightarrow> bool" where
  "forward_advances fmt \<longleftrightarrow>
     (\<forall>f f' p. forward fmt f = (f', Inr p) \<longrightarrow> p \<noteq> - 1 \<longrightarrow> p = int (pos f) \<and> pos f < pos f')"


section \<open>Frame boundaries of the GRO and SDF formats\<close>

text \<open>\<^verbatim>\<open>GROFormat::forward\<close> of \<^verbatim>\<open>src/formats/GRO.cpp\<close>. \<open>parse\<close> stands for
  \<^verbatim>\<open>parse<size_t>\<close>, which is not part of the sources at hand; it yields
  \<^const>\<open>None\<close> where it raises. The first handler turns a missing line, the second a
  count that is no number, into the position -1. \<^verbatim>\<open>natoms + 1\<close> is computed on
  \<^verbatim>\<open>size_t\<close>.\<close>

definition GRO_forward :: "(string \<Rightarrow> size_t option) \<Rightarrow> text_file \<Rightarrow> int io" where
  "GRO_forward parse f =
     (if \<not> good f then (f, Inr (- 1))
      else
        (let position = tellg f in
         case skipline f of
           (f1, Inl e) \<Rightarrow> (f1, Inr (- 1))
         | (f1, Inr _) \<Rightarrow>
             (case readline f1 of
                (f2, Inl e) \<Rightarrow> (f2, Inr (- 1))
              | (f2, Inr count_line) \<Rightarrow>
                  (case parse count_line of
                     None \<Rightarrow> (f2, Inr (- 1))
                   | Some natoms \<Rightarrow>
                       (case skiplines (unat (natoms + 1)) f2 of
                          (f3, Inl e) \<Rightarrow> (f3, Inl FormatError)
                        | (f3, Inr _) \<Rightarrow> (f3, Inr position))))))"

text \<open>\<^verbatim>\<open>GROFormat::read_next\<close>, as far as it reads the stream and checks the lines. What
  it does with an atom line of 44 characters or more (\<^verbatim>\<open>parse<double>\<close> on its
  columns, building the atom and its residue) and with the box line is left to the
  parameters \<open>parse_atom\<close> and \<open>parse_box\<close>, which may raise. A frame is the
  comment line (its name before trimming), the atoms and the cell.\<close>

record ('atom, 'cell) gro_frame =
  comment_line :: string
  atoms :: "'atom list"
  cell :: 'cell

fun GRO_read_atoms :: "(string \<Rightarrow> error + 'atom) \<Rightarrow> string list \<Rightarrow> error + 'atom list" where
  "GRO_read_atoms parse_atom [] = Inr []"
| "GRO_read_atoms parse_atom (line # lines) =
     (if length line < 44 then Inl FormatError
      else
        (case parse_atom line of
           Inl e \<Rightarrow> Inl e
         | Inr atom \<Rightarrow>
             (case GRO_read_atoms parse_atom lines of
                Inl e \<Rightarrow> Inl e
              | Inr rest \<Rightarrow> Inr (atom # rest))))"

definition GRO_read_next ::
  "(string \<Rightarrow> size_t option) \<Rightarrow> (string \<Rightarrow> error + 'atom) \<Rightarrow> (string \<Rightarrow> error + 'cell)
     \<Rightarrow> text_file \<Rightarrow> ('atom, 'cell) gro_frame io" where
  "GRO_read_next parse parse_atom parse_box f =
     (case readline f of
        (f1, Inl e) \<Rightarrow> (f1, Inl FormatError)
      | (f1, Inr name) \<Rightarrow>
          (case readline f1 of
             (f2, Inl e) \<Rightarrow> (f2, Inl FormatError)
           | (f2, Inr count_line) \<Rightarrow>
               (case parse count_line of
                  None \<Rightarrow> (f2, Inl FormatError)
                | Some natoms \<Rightarrow>
                    (case readlines (unat natoms) f2 of
                       (f3, Inl e) \<Rightarrow> (f3, Inl e)
                     | (f3, Inr lines) \<Rightarrow>
                         (case GRO_read_atoms parse_atom lines of
                            Inl e \<Rightarrow> (f3, Inl e)
                          | Inr as \<Rightarrow>
                              (case readline f3 of
                                 (f4, Inl e) \<Rightarrow> (f4, Inl e)
                               | (f4, Inr box) \<Rightarrow>
                                   (case parse_box box of
                                      Inl e \<Rightarrow> (f4, Inl e)
                                    | Inr c \<Rightarrow>
                                        (f4, Inr \<lparr>comment_line = name, atoms = as,
                                                  cell = c\<rparr>))))))))"

text \<open>The GRO format as a \<^verbatim>\<open>TextFormat\<close>. \<^verbatim>\<open>GROFormat::write_next\<close> formats numbers
  and is a parameter.\<close>

definition GRO_format ::
  "(string \<Rightarrow> size_t option) \<Rightarrow> (string \<Rightarrow> error + 'atom) \<Rightarrow> (string \<Rightarrow> error + 'cell)
     \<Rightarrow> (('atom, 'cell) gro_frame \<Rightarrow> text_file \<Rightarrow> unit io)
     \<Rightarrow> ('atom, 'cell) gro_frame format_ops" where
  "GRO_format parse parse_atom parse_box writer =
     \<lparr>forward = GRO_forward parse,
      read_next = GRO_read_next parse parse_atom parse_box,
      write_next = writer\<rparr>"



section \<open>Stand-ins for the examples\<close>

text \<open>The examples need a value for each parameter. \<open>parse_decimal\<close> reads a
  non-empty run of decimal digits between blanks; \<open>raw_line\<close> accepts every line
  and keeps it as it is, so that an example in which \<^verbatim>\<open>read_next\<close> fails owes the
  failure to the checks written out above.\<close>

definition trim_blanks :: "string \<Rightarrow> string" where
  "trim_blanks s = rev (dropWhile (\<lambda>c. c = CHR '' '') (rev (dropWhile (\<lambda>c. c = CHR '' '') s)))"

definition digit :: "char \<Rightarrow> bool" where
  "digit c \<longleftrightarrow> 48 \<le> (of_char c :: nat) \<and> (of_char c :: nat) \<le> 57"

definition parse_decimal :: "string \<Rightarrow> size_t option" where
  "parse_decimal s =
     (let t = trim_blanks s in
      if t \<noteq> [] \<and> list_all digit t
      then Some (word_of_int (foldl (\<lambda>n c. 10 * n + (of_char c - 48)) 0 t))
      else None)"

definition raw_line :: "string \<Rightarrow> error + string" where
  "raw_line line = Inr line"

definition no_writer :: "'fr \<Rightarrow> text_file \<Rightarrow> unit io" where
  "no_writer frame f = (f, Inl FormatError)"

definition GRO_example :: "(string, string) gro_frame format_ops" where
  "GRO_example = GRO_format parse_decimal raw_line raw_line no_writer"

text \<open>Example files: a GRO frame of one atom, a file of two such frames, the state of
  the object after a full scan of that file, a file whose atom line is too short, and
  a file that announces three atoms and ends after the first.\<close>

definition GRO_atom_line :: string where
  "GRO_atom_line = ''    1WAT     O1    1   0.126   1.624   1.679''"

definition GRO_frame_text :: string where
  "GRO_frame_text =
     ''comment'' @ [newline] @ ''    1'' @ [newline] @ GRO_atom_line @ [newline] @
     ''   1.0   1.0   1.0'' @ [newline]"

definition GRO_two_frames :: string where
  "GRO_two_frames = GRO_frame_text @ GRO_frame_text"

definition GRO_two_frames_scanned :: text_format where
  "GRO_two_frames_scanned =
     \<lparr>stream = open_file GRO_two_frames, steps_positions = [0, 78], eof_found = True\<rparr>"

text \<open>The object after \<^verbatim>\<open>nsteps()\<close> and one \<^verbatim>\<open>read()\<close> on the file of two frames.\<close>

definition GRO_two_frames_reread :: text_format where
  "GRO_two_frames_reread =
     \<lparr>stream = (open_file GRO_two_frames)\<lparr>pos := 78\<rparr>, steps_positions = [0, 78, 0],
      eof_found = True\<rparr>"

definition GRO_short_atom_file :: string where
  "GRO_short_atom_file =
     ''comment'' @ [newline] @ ''1'' @ [newline] @ ''short'' @ [newline] @
     ''1 1 1'' @ [newline]"

definition GRO_short_atom_scanned :: text_format where
  "GRO_short_atom_scanned =
     \<lparr>stream = open_file GRO_short_atom_file, steps_positions = [0], eof_found = True\<rparr>"





section \<open>LAMMPS data writer: tilt factors\<close>

text \<open>\<^verbatim>\<open>tilt_factor\<close> of \<^verbatim>\<open>src/formats/LAMMPSData.cpp\<close> computes on \<^verbatim>\<open>double\<close>, and what
  its loops do depends on the rounding of \<^verbatim>\<open>factor -= a\<close> and \<^verbatim>\<open>factor += a\<close>. A
  \<^verbatim>\<open>double\<close> is an IEEE 754 binary64 number: a finite value (a rational number), an
  infinity or a NaN. The sign of zero is left out: \<^verbatim>\<open>tilt_factor\<close> only compares, adds,
  subtracts and halves, and none of these tells the two zeros apart in a way that
  reaches the result.\<close>

datatype double = Finite rat | PosInf | NegInf | NaN

text \<open>The binary exponent of a number other than zero: \<open>2 powi expo x \<le> \<bar>x\<bar> < 2 powi (expo x + 1)\<close>.
  It is read off the bit lengths of numerator and denominator, which give it up to
  one.\<close>

definition expo :: "rat \<Rightarrow> int" where
  "expo x = (let (p, q) = quotient_of \<bar>x\<bar>; e = bitlen p - bitlen q in
     if 2 powi e \<le> \<bar>x\<bar> then e else e - 1)"

text \<open>Rounding to the nearest integer, a tie going to the even one.\<close>

definition round_half_even :: "rat \<Rightarrow> int" where
  "round_half_even x = (let n = \<lfloor>x\<rfloor>; r = x - of_int n in
     if r < 1 / 2 then n else if 1 / 2 < r then n + 1 else if even n then n else n + 1)"

text \<open>The distance between neighbouring doubles around \<open>x\<close>: 53 significant bits in
  the binade of \<open>x\<close>, and the spacing \<open>2 powi - 1074\<close> of the subnormal numbers below
  \<open>2 powi - 1022\<close>.\<close>

definition quantum :: "rat \<Rightarrow> rat" where
  "quantum x = 2 powi (max (expo x) (- 1022) - 52)"

text \<open>Rounding of an exact result to a double, in the default rounding mode (to
  nearest, ties to even): the magnitude is rounded to a multiple of the quantum, and
  a rounded magnitude of \<open>2 powi 1024\<close> or more overflows to the infinity of the sign.\<close>

definition round_magnitude :: "rat \<Rightarrow> rat" where
  "round_magnitude x = of_int (round_half_even (\<bar>x\<bar> / quantum x)) * quantum x"

definition round_double :: "rat \<Rightarrow> double" where
  "round_double x =
     (if 2 powi 1024 \<le> round_magnitude x then (if 0 < x then PosInf else NegInf)
      else Finite (sgn x * round_magnitude x))"

text \<open>The rationals that are doubles are those that rounding leaves alone, and a value
  of the type stands for a \<^verbatim>\<open>double\<close> if it is not finite or is one of those.\<close>

definition representable :: "rat \<Rightarrow> bool" where
  "representable x = (round_double x = Finite x)"

fun is_double :: "double \<Rightarrow> bool" where
  "is_double (Finite x) = representable x"
| "is_double x = True"

text \<open>The operations that \<^verbatim>\<open>tilt_factor\<close> uses: unary minus, \<^verbatim>\<open>fabs\<close>, \<^verbatim>\<open>+\<close>, \<^verbatim>\<open>-\<close>,
  the division by the literal \<^verbatim>\<open>2\<close>, and the comparisons, which are all false when an
  operand is a NaN.\<close>

fun dneg :: "double \<Rightarrow> double" where
  "dneg (Finite x) = Finite (- x)"
| "dneg PosInf = NegInf"
| "dneg NegInf = PosInf"
| "dneg NaN = NaN"

fun fabs :: "double \<Rightarrow> double" where
  "fabs (Finite x) = Finite \<bar>x\<bar>"
| "fabs PosInf = PosInf"
| "fabs NegInf = PosInf"
| "fabs NaN = NaN"

fun dadd :: "double \<Rightarrow> double \<Rightarrow> double" where
  "dadd (Finite x) (Finite y) = round_double (x + y)"
| "dadd NaN y = NaN"
| "dadd x NaN = NaN"
| "dadd PosInf NegInf = NaN"
| "dadd NegInf PosInf = NaN"
| "dadd PosInf y = PosInf"
| "dadd NegInf y = NegInf"
| "dadd x PosInf = PosInf"
| "dadd x NegInf = NegInf"

definition dsub :: "double \<Rightarrow> double \<Rightarrow> double" where
  "dsub x y = dadd x (dneg y)"

fun halve :: "double \<Rightarrow> double" where
  "halve (Finite x) = round_double (x / 2)"
| "halve x = x"

fun dlt :: "double \<Rightarrow> double \<Rightarrow> bool" where
  "dlt (Finite x) (Finite y) = (x < y)"
| "dlt NaN y = False"
| "dlt x NaN = False"
| "dlt x NegInf = False"
| "dlt PosInf y = False"
| "dlt NegInf y = True"
| "dlt x PosInf = True"

definition dgt :: "double \<Rightarrow> double \<Rightarrow> bool" where
  "dgt x y = dlt y x"

fun dle :: "double \<Rightarrow> double \<Rightarrow> bool" where
  "dle (Finite x) (Finite y) = (x \<le> y)"
| "dle NaN y = False"
| "dle x NaN = False"
| "dle NegInf y = True"
| "dle x PosInf = True"
| "dle x NegInf = False"
| "dle PosInf y = False"

definition dge :: "double \<Rightarrow> double \<Rightarrow> bool" where
  "dge x y = dle y x"

text \<open>Modelled from the spec: the class \<^verbatim>\<open>Matrix3D\<close> (\<^verbatim>\<open>chemfiles/types.hpp\<close>) is missing
  from the sources. The claim at hand calls it a 3x3 matrix, and \<^verbatim>\<open>tilt_factor\<close> only
  reads its entries \<^verbatim>\<open>matrix[i][j]\<close>, which are \<^verbatim>\<open>double\<close> values: a function from the
  two indices to the entry.\<close>

type_synonym matrix3d = "nat \<Rightarrow> nat \<Rightarrow> double"

text \<open>The two loops of \<^verbatim>\<open>tilt_factor\<close>. Nothing in the source bounds the number of
  their iterations: a loop that does not end has no result. \<open>iterations\<close> is not in the
  source: it counts the iterations that have been run, for the statements about the
  number of iterations, and the loops do not read it.\<close>

partial_function (option) tilt_loop_pos :: "double \<Rightarrow> double \<Rightarrow> nat \<Rightarrow> (double \<times> nat) option" where
  "tilt_loop_pos a factor iterations =
     (if dgt (fabs factor) (halve a) then tilt_loop_pos a (dsub factor a) (iterations + 1)
      else Some (factor, iterations))"

partial_function (option) tilt_loop_neg :: "double \<Rightarrow> double \<Rightarrow> nat \<Rightarrow> (double \<times> nat) option" where
  "tilt_loop_neg a factor iterations =
     (if dlt factor (halve (dneg a)) then tilt_loop_neg a (dadd factor a) (iterations + 1)
      else Some (factor, iterations))"

declare tilt_loop_pos.simps [code]
declare tilt_loop_neg.simps [code]

text \<open>\<^verbatim>\<open>tilt_factor\<close>: the value it returns, and the number of iterations its loop has
  run. The call returns nothing when the assertion \<^verbatim>\<open>i != j\<close> fails or when a loop does
  not end; the literal \<^verbatim>\<open>1e-15\<close> is the double nearest to it.\<close>

definition tilt_factor :: "matrix3d \<Rightarrow> nat \<Rightarrow> nat \<Rightarrow> (double \<times> nat) option" where
  "tilt_factor matrix i j =
     (if i = j then None
      else let factor = matrix i j; a = matrix i i in
        case (if dge factor (Finite 0) then tilt_loop_pos a factor 0 else tilt_loop_neg a factor 0) of
          None \<Rightarrow> None
        | Some (factor, iterations) \<Rightarrow>
            Some (if dlt (fabs factor) (round_double (1 / 10 ^ 15)) then Finite 0 else factor, iterations))"

text \<open>A cell matrix for the examples: the length \<open>a\<close> on the diagonal and the tilt
  \<open>xy\<close> in row 0, column 1.\<close>

definition cell_matrix :: "rat \<Rightarrow> rat \<Rightarrow> matrix3d" where
  "cell_matrix a xy = (\<lambda>i j. Finite (if i = j then a else if i = 0 \<and> j = 1 then xy else 0))"

section \<open>Properties of the canonical interaction types\<close>

lemma normalize_bond_type_sym: "normalize_bond_type i j = normalize_bond_type j i"
  by (auto simp: normalize_bond_type_def)

lemma normalize_angle_type_sym: "normalize_angle_type i j k = normalize_angle_type k j i"
  by (auto simp: normalize_angle_type_def)

lemma tie_break_swap:
  fixes M1 M2 m1 m2 :: "'a::linorder"
  shows "\<not> (M1 = M2 \<and> m1 = m2) \<Longrightarrow>
    (if M1 = M2 then (if m1 < m2 then A else B) else if M1 < M2 then A else B) =
    (if M2 = M1 then (if m2 < m1 then B else A) else if M2 < M1 then B else A)"
  by auto

text \<open>Reversing a dihedral gives the same canonical tuple as soon as the two end pairs
  differ in their maximum or in their minimum.\<close>

lemma normalize_dihedral_type_sym_no_tie:
  assumes "\<not> (max i j = max k m \<and> min i j = min k m)"
  shows "normalize_dihedral_type i j k m = normalize_dihedral_type m k j i"
proof -
  have c: "max m k = max k m" "max j i = max i j" "min m k = min k m" "min j i = min i j"
    by (simp_all add: max.commute min.commute)
  show ?thesis
    unfolding normalize_dihedral_type_def Let_def c
    by (rule tie_break_swap [OF assms])
qed

lemma sort_cong_mset: "mset xs = mset ys \<Longrightarrow> sort xs = sort ys"
  by (rule properties_for_sort) simp_all

lemma normalize_improper_type_mset:
  "mset [i', k', m'] = mset [i, k, m] \<Longrightarrow>
   normalize_improper_type i' j k' m' = normalize_improper_type i j k m"
  unfolding normalize_improper_type_def
  by (simp only: sort_cong_mset [of "[i', k', m']" "[i, k, m]"])

text \<open>The improper type does not depend on the order of the three outer atoms.\<close>

lemma normalize_improper_type_perm:
  "normalize_improper_type i j k m = normalize_improper_type i j m k \<and>
   normalize_improper_type i j k m = normalize_improper_type k j i m \<and>
   normalize_improper_type i j k m = normalize_improper_type k j m i \<and>
   normalize_improper_type i j k m = normalize_improper_type m j i k \<and>
   normalize_improper_type i j k m = normalize_improper_type m j k i"
  by (intro conjI normalize_improper_type_mset) (simp_all add: add.commute add.left_commute)

lemma normalize_examples:
  "normalize_dihedral_type 1 2 3 4 = normalize_dihedral_type 4 3 2 1"
  "normalize_improper_type 1 2 3 4 = normalize_improper_type 1 2 4 3"
  by (simp_all add: normalize_dihedral_type_def normalize_improper_type_def)

text \<open>
  Claim C3. The claim asks that \<^verbatim>\<open>normalize_dihedral_type (i, j, k, m)\<close> and
  \<^verbatim>\<open>normalize_dihedral_type (m, k, j, i)\<close> agree for all type ids. When both end pairs
  have the same maximum and the same minimum, the function reverses its argument
  whichever way round it comes: the dihedral of types 1-2-1-2 is stored as
  (2, 1, 2, 1) and the same dihedral read from the other end, 2-1-2-1, as (1, 2, 1, 2),
  so the two get different canonical tuples.
\<close>

theorem normalize_dihedral_type_tie:
  "normalize_dihedral_type 1 2 1 2 = (2, 1, 2, 1) \<and>
   normalize_dihedral_type 2 1 2 1 = (1, 2, 1, 2) \<and>
   normalize_dihedral_type 1 2 1 2 \<noteq> normalize_dihedral_type 2 1 2 1"
  by (simp add: normalize_dihedral_type_def)

section \<open>Properties of the CONECT identifier resolution\<close>

lemma lower_bound_loop_partition:
  assumes "first + len \<le> length xs"
    and "\<forall>i < first. xs ! i < v"
    and "\<forall>i. first + len \<le> i \<longrightarrow> i < length xs \<longrightarrow> \<not> xs ! i < v"
    and "sorted xs"
  shows "lower_bound_loop xs v first len \<le> length xs \<and>
         (\<forall>i < lower_bound_loop xs v first len. xs ! i < v) \<and>
         (\<forall>i. lower_bound_loop xs v first len \<le> i \<longrightarrow> i < length xs \<longrightarrow> \<not> xs ! i < v)"
  using assms
proof (induction xs v first len rule: lower_bound_loop.induct)
  case (1 xs v first len)
  show ?case
  proof (cases "len = 0")
    case True
    then have "lower_bound_loop xs v first len = first"
      by (subst lower_bound_loop.simps) simp
    with True "1.prems" show ?thesis by simp
  next
    case False
    define half where "half = len div 2"
    define middle where "middle = first + half"
    have hl: "half < len" using False by (simp add: half_def)
    have ml: "middle < length xs" using hl "1.prems"(1) by (simp add: middle_def)
    show ?thesis
    proof (cases "xs ! middle < v")
      case True
      have below: "\<forall>i < middle + 1. xs ! i < v"
      proof (intro allI impI)
        fix i assume "i < middle + 1"
        then have "i \<le> middle" by simp
        then have "xs ! i \<le> xs ! middle" using "1.prems"(4) ml by (simp add: sorted_nth_mono)
        with True show "xs ! i < v" by simp
      qed
      have r: "lower_bound_loop xs v first len =
               lower_bound_loop xs v (middle + 1) (len - half - 1)"
        using False True by (subst lower_bound_loop.simps) (simp add: half_def middle_def Let_def)
      have "middle + 1 + (len - half - 1) = first + len" using hl by (simp add: middle_def)
      with "1.IH"(1) [OF False half_def middle_def True _ below _ "1.prems"(4)] "1.prems"(1,3)
      show ?thesis unfolding r by simp
    next
      case notless: False
      have above: "\<forall>i. first + half \<le> i \<longrightarrow> i < length xs \<longrightarrow> \<not> xs ! i < v"
      proof (intro allI impI)
        fix i assume "first + half \<le> i" "i < length xs"
        then have "xs ! middle \<le> xs ! i" using "1.prems"(4) by (simp add: sorted_nth_mono middle_def)
        with notless show "\<not> xs ! i < v" by simp
      qed
      have r: "lower_bound_loop xs v first len = lower_bound_loop xs v first half"
        using False notless by (subst lower_bound_loop.simps) (simp add: half_def middle_def Let_def)
      have "first + half \<le> length xs" using hl "1.prems"(1) by simp
      from "1.IH"(2) [OF False half_def middle_def notless this "1.prems"(2) above "1.prems"(4)]
      show ?thesis unfolding r by simp
    qed
  qed
qed

lemma filter_partition_point:
  assumes "r \<le> length xs" and "\<forall>i < r. P (xs ! i)"
    and "\<forall>i. r \<le> i \<longrightarrow> i < length xs \<longrightarrow> \<not> P (xs ! i)"
  shows "length (filter P xs) = r"
proof -
  have "filter P (take r xs) = take r xs"
    using assms(1,2) by (auto simp: filter_id_conv in_set_conv_nth)
  moreover have "filter P (drop r xs) = []"
    using assms(3) by (auto simp: filter_empty_conv in_set_conv_nth)
  ultimately have "filter P (take r xs @ drop r xs) = take r xs" by (simp only: filter_append) simp
  then show ?thesis using assms(1) by (simp add: min_def)
qed

lemma lower_bound_sorted:
  "sorted xs \<Longrightarrow> lower_bound xs v = length (filter (\<lambda>x. x < v) xs)"
  unfolding lower_bound_def
  using lower_bound_loop_partition [of 0 "length xs" xs v]
  by (intro filter_partition_point [symmetric]) auto

text \<open>On a table that is not sorted the search still returns: the position it finds
  depends on the elements it probes.\<close>

lemma lower_bound_unsorted_example: "lower_bound [0, 51, 11, 21] 30 = 4"
  by code_simp

text \<open>
  Claim C4, the example as the claim states it. A file numbers its atoms 1 to 50, ends
  the chain with a TER record numbered 51 and numbers the next atoms from 1 again. The
  table is then [0, 51], and identifier 3 resolves to index 2, the third atom of the
  first chain, not to 52; so it does when the TER record is numbered 50 or carries no
  number. Read literally (a table holding the single baseline 50), the subtraction
  wraps below zero. Either way identifier 3 does not resolve to 52: the
  function subtracts the baseline from the identifier, it does not add it.
\<close>

theorem read_index_restart_counterexample:
  "track_offsets [] (map ATOM (map Some [1..50]) @ [TER 27 (Some 51)] @
      map ATOM (map Some [1..10])) = [0, 51] \<and>
   read_index [0, 51] 3 = Some 2 \<and>
   read_index [0, 51] 3 \<noteq> Some 52 \<and>
   read_index [0, 50] 3 = Some 2 \<and>
   read_index [0] 3 = Some 2 \<and>
   read_index [50] 3 = Some (- 47) \<and>
   read_index [50] 3 \<noteq> Some 52"
  by code_simp

text \<open>
  Claim C4, amended. With a sorted, non-empty table, identifier X resolves to X minus
  the number of table entries strictly below X (the baseline entry is one of them
  when it is below X) minus the first entry of the table, the baseline, in wrapping
  64-bit arithmetic. For a file that numbers its atoms 1 to 50, ends the chain with a
  TER record numbered 51 and goes on from 52, the table is [0, 51] and identifier 54
  resolves to index 52 (54 - 2 - 0).
\<close>

theorem read_index_resolves:
  assumes "atom_offsets \<noteq> []" and "sorted atom_offsets"
  shows "read_index atom_offsets X =
           Some (X - of_nat (length (filter (\<lambda>v. v < X) atom_offsets)) - hd atom_offsets) \<and>
         track_offsets [] (map ATOM (map Some [1..50]) @ [TER 27 (Some 51)] @
           map ATOM (map Some [52..60])) = [0, 51] \<and>
         read_index [0, 51] 54 = Some 52"
proof (intro conjI)
  show "read_index atom_offsets X =
          Some (X - of_nat (length (filter (\<lambda>v. v < X) atom_offsets)) - hd atom_offsets)"
    using assms by (simp add: read_index_def lower_bound_sorted)
  show "track_offsets [] (map ATOM (map Some [1..50]) @ [TER 27 (Some 51)] @
          map ATOM (map Some [52..60])) = [0, 51]"
    by (simp add: upto.simps read_ATOM_offsets_def read_TER_offsets_def)
  show "read_index [0, 51] 54 = Some 52"
    by code_simp
qed

theorem read_index_resolves_witness:
  "[0, 51 :: size_t] \<noteq> [] \<and> sorted [0, 51 :: size_t] \<and>
   read_index [0, 51] 52 = Some 50"
  using read_index_resolves [of "[0, 51]" 52] by simp

section \<open>Properties of the molecule ids\<close>

subsection \<open>Renumbering in order of first occurrence\<close>

lemma first_index_append: "x \<in> set ks \<Longrightarrow> first_index (ks @ zs) x = first_index ks x"
  by (induction ks) auto

lemma first_index_fresh: "x \<notin> set ks \<Longrightarrow> first_index (ks @ x # zs) x = length ks"
  by (induction ks) auto

lemma first_index_less: "x \<in> set ks \<Longrightarrow> first_index ks x < length ks"
  by (induction ks) auto

lemma nth_first_index: "x \<in> set ks \<Longrightarrow> ks ! first_index ks x = x"
  by (induction ks) auto

lemma first_index_inj: "x \<in> set ks \<Longrightarrow> y \<in> set ks \<Longrightarrow> first_index ks x = first_index ks y \<longleftrightarrow> x = y"
  by (metis nth_first_index)

lemma first_index_nth: "distinct ks \<Longrightarrow> p < length ks \<Longrightarrow> first_index ks (ks ! p) = p"
  by (induction ks arbitrary: p) (auto simp: nth_Cons split: nat.splits)

lemma first_seen_prefix: "\<exists>zs. first_seen ks xs = ks @ zs"
  by (induction xs arbitrary: ks) (auto, metis append.assoc)

lemma first_seen_distinct: "distinct ks \<Longrightarrow> distinct (first_seen ks xs)"
  by (induction xs arbitrary: ks) auto

lemma first_seen_set: "set (first_seen ks xs) = set ks \<union> set xs"
  by (induction xs arbitrary: ks) auto

lemma first_seen_append: "first_seen ks (xs @ ys) = first_seen (first_seen ks xs) ys"
  by (induction xs arbitrary: ks) auto

lemma map_of_zip_upt:
  "distinct ks \<Longrightarrow> map_of (zip ks [0..<length ks]) x =
     (if x \<in> set ks then Some (first_index ks x) else None)"
proof (induction ks rule: rev_induct)
  case Nil
  then show ?case by simp
next
  case (snoc k ks)
  have z: "zip (ks @ [k]) [0..<length (ks @ [k])] = zip ks [0..<length ks] @ [(k, length ks)]"
    by simp
  from snoc show ?case
    unfolding z map_of_append
    by (auto simp: first_index_append first_index_fresh map_add_def split: option.splits)
qed

lemma compact_molids_closed:
  "distinct ks \<Longrightarrow>
   compact_molids (zip ks [0..<length ks]) xs = map (first_index (first_seen ks xs)) xs"
proof (induction xs arbitrary: ks)
  case Nil
  then show ?case by simp
next
  case (Cons x xs)
  show ?case
  proof (cases "x \<in> set ks")
    case True
    obtain zs where zs: "first_seen ks xs = ks @ zs" using first_seen_prefix by blast
    from True Cons show ?thesis
      by (simp add: map_of_zip_upt zs first_index_append)
  next
    case False
    obtain zs where zs: "first_seen (ks @ [x]) xs = (ks @ [x]) @ zs"
      using first_seen_prefix by blast
    have z: "zip ks [0..<length ks] @ [(x, length ks)] = zip (ks @ [x]) [0..<length (ks @ [x])]"
      by simp
    from False Cons.prems have d: "distinct (ks @ [x])" by simp
    from False Cons.prems show ?thesis
      by (simp add: map_of_zip_upt Let_def z Cons.IH [OF d] del: zip_append upt_Suc length_append)
         (simp add: zs first_index_fresh)
  qed
qed


subsection \<open>Merging along the bonds\<close>

lemma merge_bond_length: "length (merge_bond molids bond) = length molids"
  by (simp add: merge_bond_def Let_def)

lemma rtrancl_insert_sym:
  assumes "sym R"
  shows "(a, b) \<in> (insert (i, j) (insert (j, i) R))\<^sup>* \<longleftrightarrow>
         (a, b) \<in> R\<^sup>* \<or> ((a, i) \<in> R\<^sup>* \<or> (a, j) \<in> R\<^sup>*) \<and> ((b, i) \<in> R\<^sup>* \<or> (b, j) \<in> R\<^sup>*)"
proof -
  have s: "\<And>x y. (x, y) \<in> R\<^sup>* \<longleftrightarrow> (y, x) \<in> R\<^sup>*"
    using sym_rtrancl [OF assms] by (auto dest: symD)
  have t: "\<And>x y z. (x, y) \<in> R\<^sup>* \<Longrightarrow> (y, z) \<in> R\<^sup>* \<Longrightarrow> (x, z) \<in> R\<^sup>*"
    by (rule rtrancl_trans)
  show ?thesis
    unfolding rtrancl_insert [of i j] rtrancl_insert [of j i]
    using s t by (simp, blast)
qed


lemma merge_bond_agrees:
  assumes "sym R" and "agrees n molids R" and "i < n" and "j < n"
  shows "agrees n (merge_bond molids (i, j)) (insert (i, j) (insert (j, i) R))"
proof -
  from assms(2) have len: "length molids = n"
    and eq: "\<And>a b. a < n \<Longrightarrow> b < n \<Longrightarrow> (a, b) \<in> R\<^sup>* \<longleftrightarrow> molids ! a = molids ! b"
    by (auto simp: agrees_def)
  show ?thesis
    unfolding agrees_def
  proof (intro conjI allI impI)
    show "length (merge_bond molids (i, j)) = n"
      by (simp add: merge_bond_length len)
  next
    fix a b assume a: "a < n" and b: "b < n"
    show "merge_bond molids (i, j) ! a = merge_bond molids (i, j) ! b \<longleftrightarrow>
          (a, b) \<in> (insert (i, j) (insert (j, i) R))\<^sup>*"
      unfolding rtrancl_insert_sym [OF assms(1)]
      using a b assms(3,4) len
      by (simp add: eq merge_bond_def Let_def) (auto)
  qed
qed


lemma merge_bonds_agrees:
  assumes "sym R" and "agrees n molids R" and "\<forall>bond \<in> set bonds. fst bond < n \<and> snd bond < n"
  shows "\<exists>molids'. merge_bonds molids bonds = Some molids' \<and>
           agrees n molids' (R \<union> set bonds \<union> (set bonds)\<inverse>)"
  using assms
proof (induction bonds arbitrary: molids R)
  case Nil
  then show ?case by simp
next
  case (Cons bond bonds)
  obtain i j where bond: "bond = (i, j)" by (cases bond)
  let ?R = "insert (i, j) (insert (j, i) R)"
  from Cons.prems bond have ij: "i < n" "j < n" by auto
  have len: "length molids = n" using Cons.prems(2) by (simp add: agrees_def)
  have s: "sym ?R" using Cons.prems(1) by (auto simp: sym_def)
  have a: "agrees n (merge_bond molids (i, j)) ?R"
    by (rule merge_bond_agrees [OF Cons.prems(1,2) ij])
  have r: "\<forall>bond \<in> set bonds. fst bond < n \<and> snd bond < n" using Cons.prems(3) by simp
  have u: "?R \<union> set bonds \<union> (set bonds)\<inverse> = R \<union> set (bond # bonds) \<union> (set (bond # bonds))\<inverse>"
    unfolding bond by auto
  from Cons.IH [OF s a r] show ?case
    unfolding u by (simp add: bond ij len)
qed

lemma agrees_init: "agrees n [0..<n] {}"
  by (simp add: agrees_def)

lemma merge_bonds_connected:
  assumes "\<forall>bond \<in> set bonds. fst bond < n \<and> snd bond < n"
  shows "\<exists>molids. merge_bonds [0..<n] bonds = Some molids \<and> length molids = n \<and>
           (\<forall>a<n. \<forall>b<n. molids ! a = molids ! b \<longleftrightarrow> (a, b) \<in> connected bonds)"
  using merge_bonds_agrees [OF _ agrees_init assms]
  by (simp add: agrees_def connected_def sym_def)

lemma first_index_first_seen:
  assumes "p < length xs" and "xs ! p \<notin> set (take p xs)"
  shows "first_index (first_seen [] xs) (xs ! p) = card (set (take p xs))"
proof -
  let ?G = "first_seen [] (take p xs)"
  have dG: "distinct ?G" by (simp add: first_seen_distinct)
  have sG: "set ?G = set (take p xs)" by (simp add: first_seen_set)
  have lG: "length ?G = card (set (take p xs))"
    using distinct_card [OF dG] sG by simp
  have xs: "xs = take p xs @ xs ! p # drop (Suc p) xs"
    using assms(1) by (simp add: id_take_nth_drop)
  have "first_seen [] xs = first_seen ?G (xs ! p # drop (Suc p) xs)"
    by (subst xs) (simp only: first_seen_append)
  also have "\<dots> = first_seen (?G @ [xs ! p]) (drop (Suc p) xs)"
    using assms(2) sG by simp
  finally obtain zs where "first_seen [] xs = ?G @ xs ! p # zs"
    using first_seen_prefix [of "?G @ [xs ! p]" "drop (Suc p) xs"] by auto
  then show ?thesis
    using assms(2) sG lG by (simp add: first_index_fresh)
qed

lemma compact_molids_props:
  fixes xs :: "nat list"
  defines "r \<equiv> compact_molids [] xs"
  shows "length r = length xs"
    and "\<And>p q. p < length xs \<Longrightarrow> q < length xs \<Longrightarrow> r ! p = r ! q \<longleftrightarrow> xs ! p = xs ! q"
    and "set r = {0..<card (set xs)}"
    and "\<And>p. p < length xs \<Longrightarrow> r ! p \<notin> set (take p r) \<Longrightarrow> r ! p = card (set (take p r))"
proof -
  let ?F = "first_seen [] xs"
  have r: "r = map (first_index ?F) xs"
    unfolding r_def using compact_molids_closed [of "[]" xs] by simp
  have dF: "distinct ?F" by (simp add: first_seen_distinct)
  have sF: "set ?F = set xs" by (simp add: first_seen_set)
  have lF: "length ?F = card (set xs)" using distinct_card [OF dF] sF by simp
  show len: "length r = length xs" by (simp add: r)
  show eq: "r ! p = r ! q \<longleftrightarrow> xs ! p = xs ! q" if "p < length xs" "q < length xs" for p q
    using that by (simp add: r first_index_inj sF)
  have "set r = first_index ?F ` set ?F" by (simp add: r sF)
  also have "\<dots> = {0..<length ?F}"
  proof (intro equalityI subsetI)
    fix v assume "v \<in> first_index ?F ` set ?F"
    then show "v \<in> {0..<length ?F}" by (auto simp: first_index_less)
  next
    fix v assume "v \<in> {0..<length ?F}"
    then have "v < length ?F" by simp
    then have "first_index ?F (?F ! v) = v" "?F ! v \<in> set ?F"
      using dF by (simp_all add: first_index_nth)
    then show "v \<in> first_index ?F ` set ?F" by (metis imageI)
  qed
  finally show "set r = {0..<card (set xs)}" by (simp add: lF)
  show "r ! p = card (set (take p r))" if p: "p < length xs" and new: "r ! p \<notin> set (take p r)" for p
  proof -
    have fresh: "xs ! p \<notin> set (take p xs)"
    proof
      assume "xs ! p \<in> set (take p xs)"
      then obtain q where q: "q < p" "xs ! q = xs ! p"
        using p by (auto simp: in_set_conv_nth)
      then have "r ! q = r ! p" using eq [of q p] p by simp
      moreover have "r ! q \<in> set (take p r)"
        using q p len by (auto simp: in_set_conv_nth intro!: exI [of _ q])
      ultimately show False using new by simp
    qed
    have "card (set (take p r)) = card (first_index ?F ` set (take p xs))"
      by (simp add: r take_map)
    also have "\<dots> = card (set (take p xs))"
    proof (rule card_image)
      show "inj_on (first_index ?F) (set (take p xs))"
        by (rule inj_onI) (metis first_index_inj sF in_set_takeD)
    qed
    finally show ?thesis
      using first_index_first_seen [OF p fresh] p by (simp add: r)
  qed
qed


subsection \<open>The molecule ids are the connected components\<close>

lemma card_molecules:
  assumes "length molids = n"
    and "\<forall>a<n. \<forall>b<n. molids ! a = molids ! b \<longleftrightarrow> (a, b) \<in> connected bonds"
  shows "card (molecules n bonds) = card (set molids)"
proof -
  let ?g = "\<lambda>v. {b. b < n \<and> v = molids ! b}"
  have "molecules n bonds = (\<lambda>a. ?g (molids ! a)) ` {0..<n}"
    unfolding molecules_def
    by (rule image_cong) (use assms(2) in auto)
  also have "\<dots> = ?g ` ((\<lambda>a. molids ! a) ` {0..<n})"
    by (simp only: image_image)
  also have "(\<lambda>a. molids ! a) ` {0..<n} = set molids"
    using assms(1) by (auto simp: set_conv_nth)
  finally have m: "molecules n bonds = ?g ` set molids" .
  have "inj_on ?g (set molids)"
  proof (rule inj_onI)
    fix v w assume v: "v \<in> set molids" and w: "w \<in> set molids" and g: "?g v = ?g w"
    from v assms(1) obtain a where a: "a < n" "molids ! a = v"
      by (auto simp: in_set_conv_nth)
    then have "a \<in> ?g v" by simp
    with g have "a \<in> ?g w" by simp
    with a show "v = w" by simp
  qed
  then show ?thesis unfolding m by (rule card_image)
qed

text \<open>
  Claim C6. For a frame with \<open>natoms\<close> atoms and any list of bonds between them,
  \<^verbatim>\<open>guess_molecules\<close> returns one id per atom; two atoms carry the same id if and
  only if the bonds connect them; the ids used are exactly 0, ..., k - 1 where k is
  the number of molecules; and ids are handed out in order of first appearance: an
  atom whose id occurs at no smaller index carries the number of distinct ids before
  it. On 4 atoms with the bonds (0,1) and (2,3) the result is [0, 0, 1, 1].
\<close>

theorem guess_molecules_components:
  assumes "\<forall>bond \<in> set bonds. fst bond < natoms \<and> snd bond < natoms"
  shows "(\<exists>ids. guess_molecules natoms bonds = Some ids \<and> length ids = natoms \<and>
           (\<forall>a<natoms. \<forall>b<natoms. ids ! a = ids ! b \<longleftrightarrow> (a, b) \<in> connected bonds) \<and>
           set ids = {0..<card (molecules natoms bonds)} \<and>
           (\<forall>a<natoms. ids ! a \<notin> set (take a ids) \<longrightarrow> ids ! a = card (set (take a ids)))) \<and>
         guess_molecules 4 [(0, 1), (2, 3)] = Some [0, 0, 1, 1]"
proof
  obtain molids where m: "merge_bonds [0..<natoms] bonds = Some molids"
    and len: "length molids = natoms"
    and conn: "\<forall>a<natoms. \<forall>b<natoms. molids ! a = molids ! b \<longleftrightarrow> (a, b) \<in> connected bonds"
    using merge_bonds_connected [OF assms] by blast
  let ?ids = "compact_molids [] molids"
  have g: "guess_molecules natoms bonds = Some ?ids"
    by (simp add: guess_molecules_def m)
  have l: "length ?ids = natoms"
    by (simp add: compact_molids_props(1) len)
  have c: "\<forall>a<natoms. \<forall>b<natoms. ?ids ! a = ?ids ! b \<longleftrightarrow> (a, b) \<in> connected bonds"
    using compact_molids_props(2) [of _ molids] conn len by simp
  have s: "set ?ids = {0..<card (molecules natoms bonds)}"
    by (simp add: compact_molids_props(3) card_molecules [OF len conn])
  have f: "\<forall>a<natoms. ?ids ! a \<notin> set (take a ?ids) \<longrightarrow> ?ids ! a = card (set (take a ?ids))"
    using compact_molids_props(4) [of _ molids] len by simp
  from g l c s f
  show "\<exists>ids. guess_molecules natoms bonds = Some ids \<and> length ids = natoms \<and>
           (\<forall>a<natoms. \<forall>b<natoms. ids ! a = ids ! b \<longleftrightarrow> (a, b) \<in> connected bonds) \<and>
           set ids = {0..<card (molecules natoms bonds)} \<and>
           (\<forall>a<natoms. ids ! a \<notin> set (take a ids) \<longrightarrow> ids ! a = card (set (take a ids)))"
    by blast
next
  have u: "[0..<4] = [0, 1, 2, 3]" by (simp add: upt_rec)
  show "guess_molecules 4 [(0, 1), (2, 3)] = Some [0, 0, 1, 1]"
    by (simp add: guess_molecules_def u merge_bond_def)
qed

theorem guess_molecules_components_witness:
  "list_all (\<lambda>bond. fst bond < (4::nat) \<and> snd bond < (4::nat)) [(0, 1), (2, 3)] \<and>
   (\<exists>ids. guess_molecules 4 [(0, 1), (2, 3)] = Some ids \<and> length ids = 4 \<and>
      ids ! 0 = ids ! 1 \<and> ids ! 2 = ids ! 3 \<and> set ids = {0..<card (molecules 4 [(0, 1), (2, 3)])})"
proof -
  have h: "\<forall>bond \<in> set [(0, 1), (2, 3)]. fst bond < (4::nat) \<and> snd bond < (4::nat)"
    by simp
  have c: "(0, 1) \<in> connected [(0, 1), (2, 3)]" "(2, 3) \<in> connected [(0, 1), (2, 3)]"
    by (auto simp: connected_def)
  from guess_molecules_components [OF h] obtain ids where
    ids: "guess_molecules 4 [(0, 1), (2, 3)] = Some ids" "length ids = 4"
      "\<forall>a<4. \<forall>b<4. ids ! a = ids ! b \<longleftrightarrow> (a, b) \<in> connected [(0, 1), (2, 3)]"
      "set ids = {0..<card (molecules 4 [(0, 1), (2, 3)])}"
    by blast
  from ids(3) c have "ids ! 0 = ids ! 1" "ids ! 2 = ids ! 3" by simp_all
  moreover have "list_all (\<lambda>bond. fst bond < (4::nat) \<and> snd bond < (4::nat)) [(0, 1), (2, 3)]"
    by simp
  ultimately show ?thesis using ids by blast
qed


section \<open>Properties of the bonds of standard residues\<close>

lemmas link_residue_unfold =
  link_standard_residue_bonds_def link_residue_def atom_name_to_index_def add_bond_def
  bare_table_def three_prime_oxygen_name_def HO5_prime_name_def O5_prime_name_def

text \<open>The peptide examples: residues 5, 6, 7, each with an atom N and an atom C, get the
  bonds C(5)-N(6) and C(6)-N(7); residues 5, 6, 9 only get C(5)-N(6).\<close>

lemma link_peptide_examples:
  "link_standard_residue_bonds bare_table [''N'', ''C'', ''N'', ''C'', ''N'', ''C'']
     [\<lparr>res_name = ''ALA'', res_id = Some 5, res_atoms = [0, 1]\<rparr>,
      \<lparr>res_name = ''ALA'', res_id = Some 6, res_atoms = [2, 3]\<rparr>,
      \<lparr>res_name = ''ALA'', res_id = Some 7, res_atoms = [4, 5]\<rparr>] = Some [(1, 2), (3, 4)]"
  "link_standard_residue_bonds bare_table [''N'', ''C'', ''N'', ''C'', ''N'', ''C'']
     [\<lparr>res_name = ''ALA'', res_id = Some 5, res_atoms = [0, 1]\<rparr>,
      \<lparr>res_name = ''ALA'', res_id = Some 6, res_atoms = [2, 3]\<rparr>,
      \<lparr>res_name = ''ALA'', res_id = Some 9, res_atoms = [4, 5]\<rparr>] = Some [(1, 2)]"
  by (simp_all add: link_residue_unfold)

text \<open>
  Claim C5. The claim asks that the backbone bond of a nucleic acid connects the
  tracked 3'-oxygen of the previous residue to the 5'-phosphorus of the current one.
  Residue 5 has the single atom O3' (index 0); residue 6 has P (index 1) and O3'
  (index 2). The function tests that residue 6 has a P, and then bonds atom 0 to the
  O3' of residue 6, atom 2: the bond added is (0, 2), not (0, 1). When residue 6 has a
  P and no O3', the function dereferences the end iterator of its map.
\<close>

theorem link_nucleic_bond_misses_phosphorus:
  "link_standard_residue_bonds bare_table
     [three_prime_oxygen_name, ''P'', three_prime_oxygen_name]
     [\<lparr>res_name = ''A'', res_id = Some 5, res_atoms = [0]\<rparr>,
      \<lparr>res_name = ''A'', res_id = Some 6, res_atoms = [1, 2]\<rparr>] = Some [(0, 2)] \<and>
   link_standard_residue_bonds bare_table
     [three_prime_oxygen_name, ''P'']
     [\<lparr>res_name = ''A'', res_id = Some 5, res_atoms = [0]\<rparr>,
      \<lparr>res_name = ''A'', res_id = Some 6, res_atoms = [1]\<rparr>] = None"
  by (simp add: link_residue_unfold)

section \<open>Properties of the frame boundary scans\<close>

lemma lines_of_Nil_iff: "lines_of line xs = [] \<longleftrightarrow> line = [] \<and> xs = []"
  by (induction xs arbitrary: line) auto

lemma lines_of_first:
  "lines_of line rest =
     (if line @ rest = [] then []
      else (line @ takeWhile (\<lambda>c. c \<noteq> newline) rest) #
           (if length (takeWhile (\<lambda>c. c \<noteq> newline) rest) < length rest
            then lines_of [] (drop (Suc (length (takeWhile (\<lambda>c. c \<noteq> newline) rest))) rest)
            else []))"
  by (induction rest arbitrary: line) auto

lemma getline_empty:
  assumes "lines_left f = []"
  shows "\<exists>f'. getline f = (f', Inl FileError) \<and> lines_left f' = []"
  using assms
  by (auto simp: getline_def lines_left_def Let_def lines_of_Nil_iff split: if_splits)

lemma getline_line:
  assumes "lines_left f = l # ls"
  shows "\<exists>f'. getline f = (f', Inr l) \<and> lines_left f' = ls \<and> (ls \<noteq> [] \<longrightarrow> good f')"
proof -
  define rest where "rest = drop (pos f) (content f)"
  define line where "line = takeWhile (\<lambda>c. c \<noteq> newline) rest"
  from assms have ok: "\<not> failbit f" "\<not> eofbit f" and L: "lines_of [] rest = l # ls"
    by (auto simp: lines_left_def rest_def split: if_splits)
  then have ne: "rest \<noteq> []" by auto
  define others where
    "others = (if length line < length rest
               then lines_of [] (drop (Suc (length line)) rest) else [])"
  have F: "lines_of [] rest = line # others"
    unfolding line_def others_def using ne by (subst lines_of_first) simp
  from L F have l: "l = line" and ls': "ls = others"
    by simp_all
  note ls = ls' [unfolded others_def]
  have d: "drop (Suc (length line)) rest = drop (pos f + length line + 1) (content f)"
    by (simp add: rest_def add.commute)
  have g: "getline f =
      (if length line < length rest
       then (f\<lparr>pos := pos f + length line + 1\<rparr>, Inr line)
       else (f\<lparr>pos := pos f + length line, eofbit := True\<rparr>, Inr line))"
    using ok ne by (simp add: getline_def Let_def rest_def line_def)
  show ?thesis
  proof (cases "length line < length rest")
    case True
    with g l ls d ok show ?thesis
      by (simp add: lines_left_def good_def)
  next
    case False
    with g l ls ok show ?thesis
      by (simp add: lines_left_def)
  qed
qed

lemma skiplines_enough:
  "n \<le> length (lines_left f) \<Longrightarrow>
     \<exists>f'. skiplines n f = (f', Inr ()) \<and> lines_left f' = drop n (lines_left f)"
proof (induction n arbitrary: f)
  case 0
  then show ?case by simp
next
  case (Suc n)
  then obtain l ls where L: "lines_left f = l # ls" by (cases "lines_left f") auto
  from getline_line [OF L] obtain f1 where g: "getline f = (f1, Inr l)" "lines_left f1 = ls"
    by blast
  from Suc.prems L g have "n \<le> length (lines_left f1)" by simp
  from Suc.IH [OF this] g L show ?case by simp
qed

lemma skiplines_short:
  "length (lines_left f) < n \<Longrightarrow> \<exists>f'. skiplines n f = (f', Inl FileError)"
proof (induction n arbitrary: f)
  case 0
  then show ?case by simp
next
  case (Suc n)
  show ?case
  proof (cases "lines_left f")
    case Nil
    from getline_empty [OF Nil] show ?thesis by auto
  next
    case (Cons l ls)
    from getline_line [OF Cons] obtain f1 where g: "getline f = (f1, Inr l)" "lines_left f1 = ls"
      by blast
    from Suc.prems Cons g have "length (lines_left f1) < n" by simp
    from Suc.IH [OF this] g show ?thesis by simp
  qed
qed

lemma lines_left_good: "lines_left f \<noteq> [] \<Longrightarrow> good f"
  by (auto simp: lines_left_def good_def split: if_splits)



lemma GRO_forward_clean_end:
  assumes "length (lines_left f) < 2"
  shows "snd (GRO_forward parse f) = Inr (- 1)"
proof (cases "lines_left f")
  case Nil
  from getline_empty [OF Nil] show ?thesis
    by (auto simp: GRO_forward_def skipline_def Let_def)
next
  case (Cons l ls)
  with assms have ls: "ls = []" by simp
  from getline_line [OF Cons] obtain f1 where
    f1: "getline f = (f1, Inr l)" "lines_left f1 = []" using ls by blast
  from getline_empty [OF f1(2)] f1(1) show ?thesis
    by (auto simp: GRO_forward_def skipline_def readline_def Let_def)
qed



text \<open>When the count line holds the largest \<^verbatim>\<open>size_t\<close>, \<^verbatim>\<open>natoms + 1\<close> is 0: the
  scanner asks for no line and returns the offset of a frame that has no body.\<close>

lemma GRO_forward_wrapped_count:
  assumes L: "lines_left f = comment # count_line # body"
    and p: "parse count_line = Some (- 1)"
  shows "snd (GRO_forward parse f) = Inr (tellg f)"
proof -
  have g: "good f" using L by (simp add: lines_left_good)
  from getline_line [OF L] obtain f1 where
    f1: "getline f = (f1, Inr comment)" "lines_left f1 = count_line # body" by blast
  from getline_line [OF f1(2)] obtain f2 where
    f2: "getline f1 = (f2, Inr count_line)" "lines_left f2 = body" by blast
  show ?thesis
    using g f1(1) f2(1) p
    by (simp add: GRO_forward_def skipline_def readline_def)
qed






subsection \<open>The GRO scanner moves the stream on\<close>

lemma getline_advances:
  "getline f = (f', Inr l) \<Longrightarrow> pos f < pos f'"
  by (auto simp: getline_def Let_def split: if_splits)

lemma skiplines_advances:
  "skiplines n f = (f', Inr u) \<Longrightarrow> pos f \<le> pos f'"
proof (induction n arbitrary: f)
  case 0
  then show ?case by simp
next
  case (Suc n)
  then obtain f1 l where g: "getline f = (f1, Inr l)" and r: "skiplines n f1 = (f', Inr u)"
    by (auto split: prod.splits sum.splits)
  from getline_advances [OF g] Suc.IH [OF r] show ?case by simp
qed

lemma GRO_forward_position:
  assumes "GRO_forward parse f = (f', Inr p)" and "p \<noteq> - 1"
  shows "\<exists>f1 f2 l count_line n.
           good f \<and> getline f = (f1, Inr l) \<and> getline f1 = (f2, Inr count_line) \<and>
           skiplines n f2 = (f', Inr ()) \<and> p = tellg f"
  using assms
  by (auto simp: GRO_forward_def Let_def readline_def skipline_def
      split: prod.splits sum.splits option.splits if_splits)

lemma GRO_forward_advances: "forward_advances (GRO_format parse parse_atom parse_box writer)"
  unfolding forward_advances_def
proof (intro allI impI)
  fix f f' p
  assume fw: "forward (GRO_format parse parse_atom parse_box writer) f = (f', Inr p)"
    and np: "p \<noteq> - 1"
  then have g: "GRO_forward parse f = (f', Inr p)" by (simp add: GRO_format_def)
  from GRO_forward_position [OF g np] obtain f1 f2 l count_line n where
    good: "good f" and g1: "getline f = (f1, Inr l)"
    and g2: "getline f1 = (f2, Inr count_line)"
    and s3: "skiplines n f2 = (f', Inr ())"
    and p: "p = tellg f"
    by blast
  from getline_advances [OF g1] getline_advances [OF g2] skiplines_advances [OF s3]
  have "pos f < pos f'" by simp
  moreover from p good have "p = int (pos f)" by (simp add: tellg_def good_def)
  ultimately show "p = int (pos f) \<and> pos f < pos f'" by simp
qed

subsection \<open>Scanning a GRO stream always returns\<close>

text \<open>Every call of the GRO scanner that returns a position takes at least two lines off
  the stream, so the loop of \<^verbatim>\<open>scan_all\<close> ends on every stream, whatever \<open>parse\<close>
  does.\<close>

lemma GRO_forward_consumes:
  assumes g: "GRO_forward parse f = (f', Inr p)" and np: "p \<noteq> - 1"
  shows "length (lines_left f') < length (lines_left f)"
proof (cases "length (lines_left f) < 2")
  case True
  from GRO_forward_clean_end [OF True, of parse] g np show ?thesis by simp
next
  case False
  then obtain comment count_line body where L: "lines_left f = comment # count_line # body"
    by (cases "lines_left f"; cases "tl (lines_left f)") auto
  have gd: "good f" using L by (simp add: lines_left_good)
  from getline_line [OF L] obtain f1 where
    f1: "getline f = (f1, Inr comment)" "lines_left f1 = count_line # body" by blast
  from getline_line [OF f1(2)] obtain f2 where
    f2: "getline f1 = (f2, Inr count_line)" "lines_left f2 = body" by blast
  from g np gd f1(1) f2(1) obtain n where
    s: "skiplines n f2 = (f', Inr ())"
    by (auto simp: GRO_forward_def Let_def readline_def skipline_def
        split: option.splits prod.splits sum.splits if_splits)
  have "n \<le> length (lines_left f2)"
  proof (rule ccontr)
    assume "\<not> n \<le> length (lines_left f2)"
    then have "length (lines_left f2) < n" by simp
    from skiplines_short [OF this] s show False by simp
  qed
  from skiplines_enough [OF this] s have "lines_left f' = drop n body"
    using f2(2) by simp
  then show ?thesis using L by simp
qed

lemma GRO_scan_loop_returns:
  "\<exists>r. scan_loop (GRO_format parse parse_atom parse_box writer) s = Some r"
proof (induction "length (lines_left (stream s))" arbitrary: s rule: less_induct)
  case less
  let ?fmt = "GRO_format parse parse_atom parse_box writer"
  show ?case
  proof (cases "eof (stream s)")
    case True
    then show ?thesis by (subst scan_loop.simps) simp
  next
    case False
    obtain f' r where fw: "GRO_forward parse (stream s) = (f', r)"
      by (cases "GRO_forward parse (stream s)")
    then have fw': "forward ?fmt (stream s) = (f', r)" by (simp add: GRO_format_def)
    show ?thesis
    proof (cases r)
      case (Inl e)
      with False fw' show ?thesis by (subst scan_loop.simps) simp
    next
      case (Inr position)
      show ?thesis
      proof (cases "position = - 1")
        case True
        with False fw' Inr show ?thesis by (subst scan_loop.simps) simp
      next
        case np: False
        let ?s = "s\<lparr>stream := f', steps_positions := steps_positions s @ [position]\<rparr>"
        from GRO_forward_consumes [OF fw [unfolded Inr] np]
        have "length (lines_left (stream ?s)) < length (lines_left (stream s))" by simp
        from less [OF this] obtain r' where "scan_loop ?fmt ?s = Some r'" by blast
        with False fw' Inr np show ?thesis by (subst scan_loop.simps) simp
      qed
    qed
  qed
qed

lemma GRO_nsteps_returns:
  "\<exists>s1 r. nsteps (GRO_format parse parse_atom parse_box writer) s = Some (s1, r)"
proof -
  obtain s' r' where "scan_loop (GRO_format parse parse_atom parse_box writer) s = Some (s', r')"
    using GRO_scan_loop_returns [of parse parse_atom parse_box writer s] by auto
  then show ?thesis
    by (auto simp: nsteps_def scan_all_def Let_def split: sum.splits)
qed

lemma GRO_read_step_returns:
  "\<exists>s1 r. read_step (GRO_format parse parse_atom parse_box writer) n s = Some (s1, r)"
proof -
  obtain s' r' where "scan_loop (GRO_format parse parse_atom parse_box writer) s = Some (s', r')"
    using GRO_scan_loop_returns [of parse parse_atom parse_box writer s] by auto
  then show ?thesis
    by (auto simp: read_step_def scan_all_def Let_def split: sum.splits prod.splits)
qed


section \<open>Properties of the step index\<close>

lemmas scan_loop_induct = scan_loop.raw_induct [rotated 1, consumes 1, case_names step]

lemma scan_loop_extends_aux:
  assumes "scan_loop fmt s = Some res"
  shows "prefix (steps_positions s) (steps_positions (fst res)) \<and>
         eof_found (fst res) = eof_found s"
  using assms
proof (induction fmt s res rule: scan_loop_induct)
  case (step loop fmt s res)
  show ?case
  proof (cases "eof (stream s)")
    case True
    with step(2) show ?thesis by auto
  next
    case False
    obtain f' r where fw: "forward fmt (stream s) = (f', r)" by (cases "forward fmt (stream s)")
    show ?thesis
    proof (cases r)
      case (Inl e)
      with step(2) False fw show ?thesis by auto
    next
      case (Inr position)
      show ?thesis
      proof (cases "position = - 1")
        case True
        with step(2) False fw Inr show ?thesis by auto
      next
        case np: False
        let ?s = "s\<lparr>stream := f', steps_positions := steps_positions s @ [position]\<rparr>"
        from step(2) False fw Inr np have "loop fmt ?s = Some res" by simp
        from step(1) [OF this] show ?thesis
          by (auto dest: append_prefixD)
      qed
    qed
  qed
qed

lemma scan_loop_extends:
  "scan_loop fmt s = Some (s', r) \<Longrightarrow>
     prefix (steps_positions s) (steps_positions s') \<and> eof_found s' = eof_found s"
  using scan_loop_extends_aux [of fmt s "(s', r)"] by simp

lemma scan_all_extends:
  "scan_all fmt s = Some (s', r) \<Longrightarrow> prefix (steps_positions s) (steps_positions s')"
  by (auto simp: scan_all_def Let_def split: if_splits option.splits sum.splits prod.splits
      dest: scan_loop_extends)

lemma scan_all_done:
  "scan_all fmt s = Some (s', Inr u) \<Longrightarrow> eof_found s'"
  by (auto simp: scan_all_def Let_def split: if_splits option.splits sum.splits prod.splits)

lemma scan_all_noop: "eof_found s \<Longrightarrow> scan_all fmt s = Some (s, Inr ())"
  by (simp add: scan_all_def)

lemma nsteps_scan_all:
  "nsteps fmt s = Some (s1, Inr N) \<longleftrightarrow>
     scan_all fmt s = Some (s1, Inr ()) \<and> N = length (steps_positions s1)"
  by (auto simp: nsteps_def split: option.splits sum.splits prod.splits)

lemma read_step_extends:
  "read_step fmt n s = Some (s', r) \<Longrightarrow> prefix (steps_positions s) (steps_positions s')"
  by (auto simp: read_step_def split: if_splits option.splits sum.splits prod.splits
      dest: scan_all_extends)

lemma read_extends:
  "read fmt s = Some (s', r) \<Longrightarrow> prefix (steps_positions s) (steps_positions s')"
  by (auto simp: read_def Let_def split: sum.splits prod.splits)

lemma write_frame_extends:
  "write_frame fmt frame s = Some (s', r) \<Longrightarrow> prefix (steps_positions s) (steps_positions s')"
  by (auto simp: write_frame_def split: sum.splits prod.splits)

lemma nsteps_extends:
  "nsteps fmt s = Some (s', r) \<Longrightarrow> prefix (steps_positions s) (steps_positions s')"
  by (auto simp: nsteps_def split: option.splits sum.splits prod.splits dest: scan_all_extends)

lemma apply_operation_extends:
  "apply_operation fmt operation s = Some s' \<Longrightarrow>
     prefix (steps_positions s) (steps_positions s')"
  by (cases operation)
     (auto simp: state_after_def
        dest: read_extends read_step_extends write_frame_extends nsteps_extends)

lemma scan_loop_sorted_aux:
  assumes "scan_loop fmt s = Some res"
  shows "forward_advances fmt \<longrightarrow> sorted_wrt (<) (steps_positions s) \<longrightarrow>
         (\<forall>p \<in> set (steps_positions s). p < int (pos (stream s))) \<longrightarrow>
         sorted_wrt (<) (steps_positions (fst res))"
  using assms
proof (induction fmt s res rule: scan_loop_induct)
  case (step loop fmt s res)
  show ?case
  proof (intro impI)
    assume adv: "forward_advances fmt" and srt: "sorted_wrt (<) (steps_positions s)"
      and below: "\<forall>p \<in> set (steps_positions s). p < int (pos (stream s))"
    show "sorted_wrt (<) (steps_positions (fst res))"
    proof (cases "eof (stream s)")
      case True
      with step(2) srt show ?thesis by auto
    next
      case False
      obtain f' r where fw: "forward fmt (stream s) = (f', r)"
        by (cases "forward fmt (stream s)")
      show ?thesis
      proof (cases r)
        case (Inl e)
        with step(2) False fw srt show ?thesis by auto
      next
        case (Inr position)
        show ?thesis
        proof (cases "position = - 1")
          case True
          with step(2) False fw Inr srt show ?thesis by auto
        next
          case np: False
          let ?s = "s\<lparr>stream := f', steps_positions := steps_positions s @ [position]\<rparr>"
          from adv fw Inr np have p: "position = int (pos (stream s))" "pos (stream s) < pos f'"
            by (auto simp: forward_advances_def)
          from step(2) False fw Inr np have "loop fmt ?s = Some res" by simp
          from step(1) [OF this] adv have
            "sorted_wrt (<) (steps_positions ?s) \<longrightarrow>
             (\<forall>p \<in> set (steps_positions ?s). p < int (pos (stream ?s))) \<longrightarrow>
             sorted_wrt (<) (steps_positions (fst res))" by simp
          moreover have "sorted_wrt (<) (steps_positions ?s)"
            using srt below p by (simp add: sorted_wrt_append)
          moreover have "\<forall>q \<in> set (steps_positions ?s). q < int (pos (stream ?s))"
            using below p by auto
          ultimately show ?thesis by blast
        qed
      qed
    qed
  qed
qed

lemma scan_all_sorted:
  assumes "forward_advances fmt" and "steps_positions s = []"
    and "scan_all fmt s = Some (s1, r)"
  shows "sorted_wrt (<) (steps_positions s1)"
proof (cases "eof_found s")
  case True
  with assms show ?thesis by (simp add: scan_all_def)
next
  case False
  from assms(3) False obtain s' r' where l: "scan_loop fmt s = Some (s', r')"
    and s1: "steps_positions s1 = steps_positions s'"
    by (auto simp: scan_all_def Let_def split: option.splits sum.splits prod.splits if_splits)
  from scan_loop_sorted_aux [OF l] assms(1,2) s1 show ?thesis by simp
qed

lemma scanned_index_fixed:
  assumes "eof_found s"
  shows "apply_operation fmt NSteps s = Some s"
    and "\<exists>s'. apply_operation fmt (ReadStep n) s = Some s' \<and>
           steps_positions s' = steps_positions s \<and> eof_found s'"
  using assms
  by (auto simp: state_after_def nsteps_def read_step_def scan_all_noop
      split: sum.splits prod.splits)

lemma read_step_beyond_scan:
  assumes "nsteps fmt s = Some (s1, Inr N)" and "N \<le> n"
  shows "read_step fmt n s =
           Some (s1, Inl (if N = 0 then NoStepError n else MaximalStepError n (N - 1)))"
proof -
  from assms(1) have sc: "scan_all fmt s = Some (s1, Inr ())"
    and N: "N = length (steps_positions s1)"
    by (simp_all add: nsteps_scan_all)
  from scan_all_extends [OF sc] have "length (steps_positions s) \<le> N"
    unfolding N by (rule prefix_length_le)
  with assms(2) have "length (steps_positions s) \<le> n" by simp
  with sc assms(2) show ?thesis
    by (simp add: read_step_def N)
qed

lemma scans_only_keep_index:
  assumes "eof_found s" and "list_all scans_only operations"
  shows "\<exists>s'. apply_operations fmt operations s = Some s' \<and>
           steps_positions s' = steps_positions s \<and> eof_found s'"
  using assms
proof (induction operations arbitrary: s)
  case Nil
  then show ?case by simp
next
  case (Cons operation operations)
  from Cons.prems have so: "scans_only operation" and rest: "list_all scans_only operations"
    by simp_all
  have "\<exists>s1. apply_operation fmt operation s = Some s1 \<and>
          steps_positions s1 = steps_positions s \<and> eof_found s1"
  proof (cases operation)
    case NSteps
    with scanned_index_fixed(1) [OF Cons.prems(1), of fmt] Cons.prems(1) show ?thesis by simp
  next
    case (ReadStep k)
    with scanned_index_fixed(2) [OF Cons.prems(1), of fmt k] show ?thesis by simp
  qed (use so in simp_all)
  then obtain s1 where s1: "apply_operation fmt operation s = Some s1"
    "steps_positions s1 = steps_positions s" "eof_found s1" by blast
  from Cons.IH [OF s1(3) rest] s1 show ?case by auto
qed

lemma first_scan_operation:
  assumes "steps_positions s0 = []" and "nsteps fmt s0 = Some (s1, Inr N)"
    and "scans_only operation"
  shows "\<exists>s'. apply_operation fmt operation s0 = Some s' \<and>
           steps_positions s' = steps_positions s1 \<and> eof_found s'"
proof -
  from assms(2) have sc: "scan_all fmt s0 = Some (s1, Inr ())"
    by (simp add: nsteps_scan_all)
  have e: "eof_found s1" using sc by (rule scan_all_done)
  show ?thesis
  proof (cases operation)
    case NSteps
    with assms(2) e show ?thesis by (simp add: state_after_def)
  next
    case (ReadStep k)
    with sc e assms(1) show ?thesis
      by (auto simp: state_after_def read_step_def split: prod.splits sum.splits)
  qed (use assms(3) in simp_all)
qed

lemma scans_only_from_empty:
  assumes "steps_positions s0 = []" and "nsteps fmt s0 = Some (s1, Inr N)"
    and "list_all scans_only operations"
  shows "\<exists>s2. apply_operations fmt operations s0 = Some s2 \<and>
           (s2 = s0 \<or> steps_positions s2 = steps_positions s1 \<and> eof_found s2)"
proof (cases operations)
  case Nil
  then show ?thesis by simp
next
  case (Cons operation rest)
  with assms(3) have so: "scans_only operation" and r: "list_all scans_only rest" by simp_all
  from first_scan_operation [OF assms(1,2) so] obtain s' where
    s': "apply_operation fmt operation s0 = Some s'" "steps_positions s' = steps_positions s1"
      "eof_found s'" by blast
  from scans_only_keep_index [OF s'(3) r, of fmt] s' Cons show ?thesis by auto
qed

text \<open>
  Claim C1, as the claim states it. The file holds two frames and \<^verbatim>\<open>nsteps()\<close>
  answers 2. The \<^verbatim>\<open>read()\<close> that follows appends a third entry, offset 0, to the
  index; \<^verbatim>\<open>read_step(2)\<close> then returns the first frame instead of an error, and
  \<^verbatim>\<open>nsteps()\<close> answers 3.
\<close>

theorem read_step_after_read_counterexample:
  "nsteps GRO_example (open_format GRO_two_frames) = Some (GRO_two_frames_scanned, Inr 2) \<and>
   apply_operations GRO_example [NSteps, Read] (open_format GRO_two_frames) =
     Some GRO_two_frames_reread \<and>
   read_step GRO_example 2 GRO_two_frames_reread =
     Some (GRO_two_frames_reread,
           Inr \<lparr>comment_line = ''comment'', atoms = [GRO_atom_line],
                cell = ''   1.0   1.0   1.0''\<rparr>) \<and>
   nsteps GRO_example GRO_two_frames_reread = Some (GRO_two_frames_reread, Inr 3)"
  by code_simp

text \<open>
  Claim C1, amended. Let \<^verbatim>\<open>nsteps()\<close> on the handle answer N, the length of the index
  that a scan leaves. Then \<^verbatim>\<open>read_step(n)\<close> with \<open>n \<ge> N\<close> on that handle returns
  with an error and no frame: the error that the file does not contain any step when
  N = 0, and otherwise the error that names the maximal step N - 1. On a handle that
  has only been used through \<^verbatim>\<open>read_step()\<close> and \<^verbatim>\<open>nsteps()\<close> since it was opened,
  this N is the number M of frames that a scan of the file finds: every
  \<^verbatim>\<open>read_step(m)\<close> with \<open>m \<ge> M\<close> returns with these errors.
\<close>

theorem read_step_out_of_range:
  "(nsteps fmt s = Some (s1, Inr N) \<longrightarrow> N \<le> n \<longrightarrow>
      read_step fmt n s =
        Some (s1, Inl (if N = 0 then NoStepError n else MaximalStepError n (N - 1)))) \<and>
   (nsteps fmt (open_format bytes) = Some (t1, Inr M) \<longrightarrow> list_all scans_only operations \<longrightarrow>
      M \<le> m \<longrightarrow>
      (\<exists>t2 t3. apply_operations fmt operations (open_format bytes) = Some t2 \<and>
         read_step fmt m t2 =
           Some (t3, Inl (if M = 0 then NoStepError m else MaximalStepError m (M - 1))) \<and>
         steps_positions t3 = steps_positions t1))"
proof (intro conjI impI)
  assume "nsteps fmt s = Some (s1, Inr N)" and "N \<le> n"
  then show "read_step fmt n s =
      Some (s1, Inl (if N = 0 then NoStepError n else MaximalStepError n (N - 1)))"
    by (rule read_step_beyond_scan)
next
  assume n: "nsteps fmt (open_format bytes) = Some (t1, Inr M)"
    and ops: "list_all scans_only operations" and m: "M \<le> m"
  have e: "steps_positions (open_format bytes) = []" by (simp add: open_format_def)
  from n have M: "M = length (steps_positions t1)" by (simp add: nsteps_scan_all)
  from scans_only_from_empty [OF e n ops] obtain t2 where
    t2: "apply_operations fmt operations (open_format bytes) = Some t2"
    and c: "t2 = open_format bytes \<or> steps_positions t2 = steps_positions t1 \<and> eof_found t2"
    by blast
  from c have "\<exists>t3. read_step fmt m t2 =
           Some (t3, Inl (if M = 0 then NoStepError m else MaximalStepError m (M - 1))) \<and>
         steps_positions t3 = steps_positions t1"
  proof
    assume "t2 = open_format bytes"
    with read_step_beyond_scan [OF n m] show ?thesis by simp
  next
    assume a: "steps_positions t2 = steps_positions t1 \<and> eof_found t2"
    then have "scan_all fmt t2 = Some (t2, Inr ())" by (simp add: scan_all_noop)
    with a m M show ?thesis by (simp add: read_step_def)
  qed
  with t2 show "\<exists>t2 t3. apply_operations fmt operations (open_format bytes) = Some t2 \<and>
         read_step fmt m t2 =
           Some (t3, Inl (if M = 0 then NoStepError m else MaximalStepError m (M - 1))) \<and>
         steps_positions t3 = steps_positions t1"
    by blast
qed

theorem read_step_out_of_range_witness:
  "nsteps GRO_example (open_format GRO_two_frames) = Some (GRO_two_frames_scanned, Inr 2) \<and>
   read_step GRO_example 2 (open_format GRO_two_frames) =
     Some (GRO_two_frames_scanned, Inl (MaximalStepError 2 1)) \<and>
   nsteps GRO_example (open_format []) =
     Some (\<lparr>stream = open_file [], steps_positions = [], eof_found = True\<rparr>, Inr 0) \<and>
   read_step GRO_example 5 (open_format []) =
     Some (\<lparr>stream = open_file [], steps_positions = [], eof_found = True\<rparr>,
           Inl (NoStepError 5)) \<and>
   list_all scans_only
     ([ReadStep 1, NSteps, ReadStep 0] :: (string, string) gro_frame operation list) \<and>
   (\<exists>t2 t3. apply_operations GRO_example [ReadStep 1, NSteps, ReadStep 0]
               (open_format GRO_two_frames) = Some t2 \<and>
      read_step GRO_example 2 t2 = Some (t3, Inl (MaximalStepError 2 1)) \<and>
      steps_positions t3 = [0, 78])"
proof -
  have h1: "nsteps GRO_example (open_format GRO_two_frames) =
              Some (GRO_two_frames_scanned, Inr 2)"
    by code_simp
  have h2: "nsteps GRO_example (open_format []) =
              Some (\<lparr>stream = open_file [], steps_positions = [], eof_found = True\<rparr>, Inr 0)"
    by code_simp
  have so: "list_all scans_only ([ReadStep 1, NSteps, ReadStep 0] :: (string, string) gro_frame operation list)"
    by simp
  note T1 = read_step_out_of_range [where fmt = GRO_example and s = "open_format GRO_two_frames"
      and ?s1.0 = GRO_two_frames_scanned and N = 2 and n = 2 and bytes = GRO_two_frames
      and ?t1.0 = GRO_two_frames_scanned and M = 2
      and operations = "[ReadStep 1, NSteps, ReadStep 0]" and m = 2]
  note T2 = read_step_out_of_range [where fmt = GRO_example and s = "open_format []"
      and ?s1.0 = "\<lparr>stream = open_file [], steps_positions = [], eof_found = True\<rparr>"
      and N = 0 and n = 5]
  from T1 h1 have a: "read_step GRO_example 2 (open_format GRO_two_frames) =
     Some (GRO_two_frames_scanned, Inl (MaximalStepError 2 1))"
    by simp
  from T2 h2 have b: "read_step GRO_example 5 (open_format []) =
     Some (\<lparr>stream = open_file [], steps_positions = [], eof_found = True\<rparr>,
           Inl (NoStepError 5))"
    by simp
  from T1 h1 so have "\<exists>t2 t3. apply_operations GRO_example [ReadStep 1, NSteps, ReadStep 0]
               (open_format GRO_two_frames) = Some t2 \<and>
      read_step GRO_example 2 t2 = Some (t3, Inl (if (2::nat) = 0 then NoStepError 2 else MaximalStepError 2 (2 - 1))) \<and>
      steps_positions t3 = steps_positions GRO_two_frames_scanned"
    by blast
  then have c: "\<exists>t2 t3. apply_operations GRO_example [ReadStep 1, NSteps, ReadStep 0]
               (open_format GRO_two_frames) = Some t2 \<and>
      read_step GRO_example 2 t2 = Some (t3, Inl (MaximalStepError 2 1)) \<and>
      steps_positions t3 = [0, 78]"
    by (simp add: GRO_two_frames_scanned_def del: apply_operations.simps)
  from h1 a h2 b so c show ?thesis by blast
qed

text \<open>
  Claim C2, as the claim states it. On a GRO file of two frames, \<^verbatim>\<open>nsteps()\<close> records
  the offsets 0 and 78 and puts the stream back at offset 0; the \<^verbatim>\<open>read()\<close> that follows
  parses the first frame again and appends its offset: the index is [0, 78, 0]. It is
  not strictly increasing, and its entry 2 is the start of frame 0.
\<close>

theorem steps_positions_counterexample:
  "map_option steps_positions
     (apply_operations GRO_example [NSteps, Read] (open_format GRO_two_frames)) =
     Some [0, 78, 0] \<and>
   \<not> sorted_wrt (<) [0, 78, 0 :: int]"
  by code_simp

text \<open>
  Claim C2, amended. Throughout any sequence of \<^verbatim>\<open>read()\<close>, \<^verbatim>\<open>read_step()\<close>,
  \<^verbatim>\<open>write()\<close> and \<^verbatim>\<open>nsteps()\<close> on one open handle, whether they succeed or raise,
  the index is only ever extended at its end: the index before the sequence is a
  prefix of the index after it. When the scanner of the format returns the offset it
  starts from and moves the stream on, an \<^verbatim>\<open>nsteps()\<close> that starts from an empty index
  and returns N leaves N strictly increasing offsets. Once a scan has completed,
  \<^verbatim>\<open>nsteps()\<close> and \<^verbatim>\<open>read_step()\<close> leave the index as it is.
\<close>

theorem steps_positions_append_only:
  "(apply_operations fmt operations s = Some s' \<longrightarrow>
      prefix (steps_positions s) (steps_positions s')) \<and>
   (forward_advances fmt \<longrightarrow> steps_positions s0 = [] \<longrightarrow> nsteps fmt s0 = Some (s1, Inr N) \<longrightarrow>
      sorted_wrt (<) (steps_positions s1) \<and> length (steps_positions s1) = N) \<and>
   (eof_found s2 \<longrightarrow>
      apply_operation fmt NSteps s2 = Some s2 \<and>
      (\<exists>s3. apply_operation fmt (ReadStep n) s2 = Some s3 \<and>
         steps_positions s3 = steps_positions s2 \<and> eof_found s3))"
proof (intro conjI impI)
  assume "apply_operations fmt operations s = Some s'"
  then show "prefix (steps_positions s) (steps_positions s')"
  proof (induction operations arbitrary: s)
    case Nil
    then show ?case by simp
  next
    case (Cons operation operations)
    then obtain s1 where s1: "apply_operation fmt operation s = Some s1"
      and rest: "apply_operations fmt operations s1 = Some s'"
      by (auto split: option.splits)
    from apply_operation_extends [OF s1] Cons.IH [OF rest] show ?case
      by (rule prefix_order.trans)
  qed
next
  assume adv: "forward_advances fmt" and e: "steps_positions s0 = []"
    and n: "nsteps fmt s0 = Some (s1, Inr N)"
  from n have sc: "scan_all fmt s0 = Some (s1, Inr ())" and N: "N = length (steps_positions s1)"
    by (simp_all add: nsteps_scan_all)
  show "sorted_wrt (<) (steps_positions s1)"
    by (rule scan_all_sorted [OF adv e sc])
  show "length (steps_positions s1) = N" using N by simp
next
  assume e: "eof_found s2"
  show "apply_operation fmt NSteps s2 = Some s2"
    by (rule scanned_index_fixed(1) [OF e])
  show "\<exists>s3. apply_operation fmt (ReadStep n) s2 = Some s3 \<and>
         steps_positions s3 = steps_positions s2 \<and> eof_found s3"
    by (rule scanned_index_fixed(2) [OF e])
qed


theorem steps_positions_append_only_witness:
  "apply_operations GRO_example [ReadStep 0, Read, NSteps] (open_format GRO_two_frames) =
     Some (GRO_two_frames_scanned
            \<lparr>stream := (open_file GRO_two_frames)\<lparr>pos := 156\<rparr>,
              steps_positions := [0, 78, 78]\<rparr>) \<and>
   prefix (steps_positions (open_format GRO_two_frames)) [0, 78, 78] \<and>
   forward_advances GRO_example \<and>
   steps_positions (open_format GRO_two_frames) = [] \<and>
   nsteps GRO_example (open_format GRO_two_frames) = Some (GRO_two_frames_scanned, Inr 2) \<and>
   sorted_wrt (<) (steps_positions GRO_two_frames_scanned) \<and>
   eof_found GRO_two_frames_scanned \<and>
   apply_operation GRO_example NSteps GRO_two_frames_scanned = Some GRO_two_frames_scanned \<and>
   (\<exists>s3. apply_operation GRO_example (ReadStep 1) GRO_two_frames_scanned = Some s3 \<and>
      steps_positions s3 = [0, 78])"
proof -
  have h: "apply_operations GRO_example [ReadStep 0, Read, NSteps] (open_format GRO_two_frames) =
     Some (GRO_two_frames_scanned
            \<lparr>stream := (open_file GRO_two_frames)\<lparr>pos := 156\<rparr>,
              steps_positions := [0, 78, 78]\<rparr>)"
    by code_simp
  have a: "forward_advances GRO_example"
    unfolding GRO_example_def by (rule GRO_forward_advances)
  have e: "steps_positions (open_format GRO_two_frames) = []"
    by (simp add: open_format_def)
  have n: "nsteps GRO_example (open_format GRO_two_frames) =
             Some (GRO_two_frames_scanned, Inr 2)"
    by code_simp
  have f: "eof_found GRO_two_frames_scanned"
    by (simp add: GRO_two_frames_scanned_def)
  note T = steps_positions_append_only [where fmt = GRO_example
      and operations = "[ReadStep 0, Read, NSteps]" and s = "open_format GRO_two_frames"
      and s' = "GRO_two_frames_scanned
            \<lparr>stream := (open_file GRO_two_frames)\<lparr>pos := 156\<rparr>,
              steps_positions := [0, 78, 78]\<rparr>"
      and ?s0.0 = "open_format GRO_two_frames" and ?s1.0 = GRO_two_frames_scanned and N = 2
      and ?s2.0 = GRO_two_frames_scanned and n = 1]
  from T h have p: "prefix (steps_positions (open_format GRO_two_frames)) [0, 78, 78]"
    by (simp del: apply_operations.simps apply_operation.simps)
  from T a e n have s: "sorted_wrt (<) (steps_positions GRO_two_frames_scanned)"
    by blast
  from T f have
    k: "apply_operation GRO_example NSteps GRO_two_frames_scanned = Some GRO_two_frames_scanned"
    and "\<exists>s3. apply_operation GRO_example (ReadStep 1) GRO_two_frames_scanned = Some s3 \<and>
           steps_positions s3 = steps_positions GRO_two_frames_scanned \<and> eof_found s3"
    by blast+
  then have r: "\<exists>s3. apply_operation GRO_example (ReadStep 1) GRO_two_frames_scanned = Some s3 \<and>
      steps_positions s3 = [0, 78]"
    by (auto simp: GRO_two_frames_scanned_def simp del: apply_operation.simps)
  from h p a e n s f k r show ?thesis by blast
qed

text \<open>
  Claim C9. If parsing the next frame raises during a sequential \<^verbatim>\<open>read()\<close>, the call
  returns with that exception and the index is what it was before the call: only the
  stream has moved.
\<close>

theorem read_failure_keeps_index:
  assumes "read_next fmt (stream s) = (f', Inl e)"
  shows "read fmt s = Some (s\<lparr>stream := f'\<rparr>, Inl e) \<and>
         steps_positions (s\<lparr>stream := f'\<rparr>) = steps_positions s"
  using assms by (simp add: read_def)

theorem read_failure_keeps_index_witness:
  "read_next GRO_example (stream (open_format GRO_short_atom_file)) =
     ((open_file GRO_short_atom_file)\<lparr>pos := 16\<rparr>, Inl FormatError) \<and>
   read GRO_example (open_format GRO_short_atom_file) =
     Some ((open_format GRO_short_atom_file)
             \<lparr>stream := (open_file GRO_short_atom_file)\<lparr>pos := 16\<rparr>\<rparr>, Inl FormatError) \<and>
   steps_positions ((open_format GRO_short_atom_file)
             \<lparr>stream := (open_file GRO_short_atom_file)\<lparr>pos := 16\<rparr>\<rparr>) = []"
proof -
  have h: "read_next GRO_example (stream (open_format GRO_short_atom_file)) =
     ((open_file GRO_short_atom_file)\<lparr>pos := 16\<rparr>, Inl FormatError)"
    by code_simp
  show ?thesis
    using read_failure_keeps_index [OF h] h by (simp add: open_format_def)
qed


lemma read_step_known:
  assumes "i < length (steps_positions s)"
  shows "read_step fmt i s =
           (case read_next fmt (seekg (steps_positions s ! i) (stream s)) of
              (f', r) \<Rightarrow> Some (s\<lparr>stream := f'\<rparr>, r))"
  using assms by (auto simp: read_step_def split: prod.splits sum.splits)

text \<open>
  Claim C7, as the claim states it. The GRO scanner reads the atom count of a frame
  and skips its lines without looking at them. On a file whose only atom line is too
  short, \<^verbatim>\<open>nsteps()\<close> returns 1, and \<^verbatim>\<open>read_step(0)\<close> then raises a format error:
  it does not succeed.
\<close>

theorem read_step_after_nsteps_counterexample:
  "nsteps GRO_example (open_format GRO_short_atom_file) =
     Some (GRO_short_atom_scanned, Inr 1) \<and>
   read_step GRO_example 0 GRO_short_atom_scanned =
     Some (GRO_short_atom_scanned\<lparr>stream := (open_file GRO_short_atom_file)\<lparr>pos := 16\<rparr>\<rparr>,
           Inl FormatError)"
  by code_simp

text \<open>
  Claim C7, amended. Once the end-of-file flag of the object is set, a further scan
  returns at once and leaves the object, index and stream, as it is. After
  \<^verbatim>\<open>nsteps()\<close> has returned N the flag is set, and \<^verbatim>\<open>read_step(i)\<close> with \<open>i < N\<close>
  runs no scan and raises no out-of-range error: it moves the stream to offset i
  and returns what parsing the frame there returns, value or exception, with the index
  unchanged.
\<close>

theorem scan_once:
  "(eof_found s0 \<longrightarrow> scan_all fmt s0 = Some (s0, Inr ())) \<and>
   (nsteps fmt s = Some (s1, Inr N) \<longrightarrow> i < N \<longrightarrow>
      eof_found s1 \<and> scan_all fmt s1 = Some (s1, Inr ()) \<and>
      read_step fmt i s1 =
        (case read_next fmt (seekg (steps_positions s1 ! i) (stream s1)) of
           (f', r) \<Rightarrow> Some (s1\<lparr>stream := f'\<rparr>, r)))"
proof (intro conjI impI)
  show "scan_all fmt s0 = Some (s0, Inr ())" if "eof_found s0"
    using that by (rule scan_all_noop)
next
  assume n: "nsteps fmt s = Some (s1, Inr N)" and i: "i < N"
  from n have sc: "scan_all fmt s = Some (s1, Inr ())" and N: "N = length (steps_positions s1)"
    by (simp_all add: nsteps_scan_all)
  show e: "eof_found s1" using sc by (rule scan_all_done)
  show "scan_all fmt s1 = Some (s1, Inr ())" using e by (rule scan_all_noop)
  show "read_step fmt i s1 =
        (case read_next fmt (seekg (steps_positions s1 ! i) (stream s1)) of
           (f', r) \<Rightarrow> Some (s1\<lparr>stream := f'\<rparr>, r))"
    using i N by (simp add: read_step_known)
qed

theorem scan_once_witness:
  "eof_found GRO_two_frames_scanned \<and>
   nsteps GRO_example (open_format GRO_two_frames) = Some (GRO_two_frames_scanned, Inr 2) \<and>
   (1::nat) < 2 \<and>
   scan_all GRO_example GRO_two_frames_scanned = Some (GRO_two_frames_scanned, Inr ()) \<and>
   read_step GRO_example 1 GRO_two_frames_scanned =
     Some (GRO_two_frames_scanned\<lparr>stream := (open_file GRO_two_frames)\<lparr>pos := 156\<rparr>\<rparr>,
           Inr \<lparr>comment_line = ''comment'', atoms = [GRO_atom_line],
                cell = ''   1.0   1.0   1.0''\<rparr>)"
proof -
  have e: "eof_found GRO_two_frames_scanned"
    by (simp add: GRO_two_frames_scanned_def)
  have h: "nsteps GRO_example (open_format GRO_two_frames) =
             Some (GRO_two_frames_scanned, Inr 2)"
    by code_simp
  have r: "read_next GRO_example
             (seekg (steps_positions GRO_two_frames_scanned ! 1) (stream GRO_two_frames_scanned)) =
           ((open_file GRO_two_frames)\<lparr>pos := 156\<rparr>,
            Inr \<lparr>comment_line = ''comment'', atoms = [GRO_atom_line],
                 cell = ''   1.0   1.0   1.0''\<rparr>)"
    by code_simp
  from scan_once [of GRO_two_frames_scanned GRO_example "open_format GRO_two_frames"
      GRO_two_frames_scanned 2 1] e h r
  show ?thesis by simp
qed


section \<open>Properties of the tilt factors\<close>

subsection \<open>Powers of two and the binary exponent\<close>

lemma p2_mono: "k \<le> l \<Longrightarrow> (2::rat) powi k \<le> 2 powi l"
  by (rule power_int_increasing) simp_all

lemma p2_strict: "k < l \<Longrightarrow> (2::rat) powi k < 2 powi l"
  by (rule power_int_strict_increasing) simp_all

lemma p2_less_iff: "(2::rat) powi k < 2 powi l \<longleftrightarrow> k < l"
  using p2_mono [of l k] p2_strict [of k l] by (auto simp: not_less [symmetric])

lemma p2_add: "(2::rat) powi (k + l) = 2 powi k * 2 powi l"
  by (simp add: power_int_add)

lemma p2_Suc: "(2::rat) powi (k + 1) = 2 * 2 powi k"
  by (simp add: power_int_add)

lemma bitlen_powi:
  assumes "0 < p"
  shows "(2::rat) powi (bitlen p - 1) \<le> of_int p" and "of_int p < (2::rat) powi (bitlen p)"
proof -
  from assms have b: "1 \<le> bitlen p"
    using bitlen_eq_zero_iff [of p] bitlen_nonneg [of p] by linarith
  from bitlen_bounds [OF assms] have lo: "2 ^ nat (bitlen p - 1) \<le> p" and hi: "p < 2 ^ nat (bitlen p)"
    by simp_all
  have "(2::rat) powi (bitlen p - 1) = of_int (2 ^ nat (bitlen p - 1))"
    using b by (simp add: power_int_nonneg_exp)
  also have "\<dots> \<le> of_int p"
    using lo by (simp only: of_int_le_iff)
  finally show "(2::rat) powi (bitlen p - 1) \<le> of_int p" .
  have "(of_int p :: rat) < of_int (2 ^ nat (bitlen p))"
    using hi by (simp only: of_int_less_iff)
  also have "\<dots> = 2 powi (bitlen p)"
    using b by (simp add: power_int_nonneg_exp)
  finally show "of_int p < (2::rat) powi (bitlen p)" .
qed

lemma expo_bounds:
  assumes "x \<noteq> 0"
  shows "2 powi (expo x) \<le> \<bar>x\<bar>" and "\<bar>x\<bar> < 2 powi (expo x + 1)"
proof -
  obtain p q where pq: "quotient_of \<bar>x\<bar> = (p, q)"
    by (cases "quotient_of \<bar>x\<bar>")
  have q: "0 < q"
    using pq by (rule quotient_of_denom_pos)
  have x: "\<bar>x\<bar> = of_int p / of_int q"
    using pq by (rule quotient_of_div)
  have p: "0 < p"
  proof (rule ccontr)
    assume "\<not> 0 < p"
    then have "of_int p / (of_int q :: rat) \<le> 0"
      using q by (simp add: divide_le_0_iff)
    with x assms show False by simp
  qed
  define bp where "bp = bitlen p"
  define bq where "bq = bitlen q"
  note P = bitlen_powi [OF p, folded bp_def]
  note Q = bitlen_powi [OF q, folded bq_def]
  have qpos: "0 < (of_int q :: rat)" using q by simp
  have ppos: "0 < (of_int p :: rat)" using p by simp
  have up: "\<bar>x\<bar> < 2 powi (bp - bq + 1)"
  proof -
    have "of_int p * 2 powi (bq - 1) < (2::rat) powi bp * of_int q"
      using P(2) Q(1) ppos qpos by (intro mult_less_le_imp_less) simp_all
    then have "of_int p / of_int q < (2::rat) powi bp / 2 powi (bq - 1)"
      using qpos by (simp add: field_simps)
    also have "\<dots> = 2 powi (bp - bq + 1)"
      by (simp add: power_int_diff power_int_add)
    finally show ?thesis using x by simp
  qed
  have lo: "2 powi (bp - bq - 1) \<le> \<bar>x\<bar>"
  proof -
    have "(2::rat) powi (bp - 1) * of_int q \<le> of_int p * 2 powi bq"
      using P(1) Q(2) ppos qpos by (intro mult_mono) simp_all
    then have "(2::rat) powi (bp - 1) / 2 powi bq \<le> of_int p / of_int q"
      using qpos by (simp add: field_simps)
    moreover have "(2::rat) powi (bp - 1) / 2 powi bq = 2 powi (bp - bq - 1)"
      by (simp add: power_int_diff)
    ultimately show ?thesis using x by simp
  qed
  have e: "expo x = (if 2 powi (bp - bq) \<le> \<bar>x\<bar> then bp - bq else bp - bq - 1)"
    by (simp add: expo_def pq bp_def bq_def Let_def)
  show "2 powi (expo x) \<le> \<bar>x\<bar>"
    using lo by (simp add: e)
  show "\<bar>x\<bar> < 2 powi (expo x + 1)"
    using up by (auto simp add: e not_le)
qed

lemma expo_unique:
  assumes "2 powi e \<le> \<bar>x\<bar>" and "\<bar>x\<bar> < 2 powi (e + 1)"
  shows "expo x = e"
proof -
  have nz: "x \<noteq> 0"
  proof
    assume "x = 0"
    with assms(1) have "(2::rat) powi e \<le> 0" by simp
    moreover have "0 < (2::rat) powi e" by simp
    ultimately show False by linarith
  qed
  note B = expo_bounds [OF nz]
  have "2 powi e < (2::rat) powi (expo x + 1)"
    using assms(1) B(2) by (rule le_less_trans)
  then have 1: "e < expo x + 1" by (simp only: p2_less_iff)
  have "2 powi (expo x) < (2::rat) powi (e + 1)"
    using B(1) assms(2) by (rule le_less_trans)
  then have 2: "expo x < e + 1" by (simp only: p2_less_iff)
  from 1 2 show ?thesis by simp
qed

lemma expo_minus [simp]: "expo (- x) = expo x"
  by (simp add: expo_def)

lemma expo_abs [simp]: "expo \<bar>x\<bar> = expo x"
  by (simp add: expo_def)

lemma expo_mono:
  assumes "x \<noteq> 0" "\<bar>x\<bar> \<le> \<bar>y\<bar>"
  shows "expo x \<le> expo y"
proof -
  have ny: "y \<noteq> 0" using assms by auto
  have "2 powi (expo x) \<le> \<bar>x\<bar>" using assms(1) by (rule expo_bounds)
  also have "\<dots> \<le> \<bar>y\<bar>" by fact
  also have "\<dots> < 2 powi (expo y + 1)" using ny by (rule expo_bounds)
  finally have "expo x < expo y + 1" by (simp only: p2_less_iff)
  then show ?thesis by simp
qed

subsection \<open>Rounding\<close>

text \<open>Rounding to an integer is monotone and leaves integers alone; the rounded
  magnitude does not depend on the sign.\<close>

lemma round_half_even_of_int [simp]: "round_half_even (of_int n) = n"
  by (simp add: round_half_even_def)

lemma round_half_even_zero [simp]: "round_half_even 0 = 0"
  by (simp add: round_half_even_def)

lemma round_half_even_lower: "\<lfloor>x\<rfloor> \<le> round_half_even x"
  by (simp add: round_half_even_def Let_def)

lemma round_half_even_upper: "round_half_even x \<le> \<lfloor>x\<rfloor> + 1"
  by (simp add: round_half_even_def Let_def)

lemma round_half_even_mono:
  assumes "x \<le> y"
  shows "round_half_even x \<le> round_half_even y"
proof (cases "\<lfloor>x\<rfloor> = \<lfloor>y\<rfloor>")
  case True
  have "x - of_int \<lfloor>x\<rfloor> \<le> y - of_int \<lfloor>x\<rfloor>"
    using assms by simp
  then show ?thesis
    by (simp add: round_half_even_def Let_def True [symmetric])
next
  case False
  with assms have "\<lfloor>x\<rfloor> < \<lfloor>y\<rfloor>"
    using floor_mono [of x y] by linarith
  then have "\<lfloor>x\<rfloor> + 1 \<le> \<lfloor>y\<rfloor>" by simp
  with round_half_even_upper [of x] round_half_even_lower [of y] show ?thesis
    by linarith
qed

lemma quantum_pos [simp]: "0 < quantum x"
  by (simp add: quantum_def)

lemma quantum_nonneg [simp]: "0 \<le> quantum x"
  by (simp add: quantum_def)

lemma quantum_minus [simp]: "quantum (- x) = quantum x"
  by (simp add: quantum_def)

lemma quantum_abs [simp]: "quantum \<bar>x\<bar> = quantum x"
  by (simp add: quantum_def)

lemma round_magnitude_minus [simp]: "round_magnitude (- x) = round_magnitude x"
  by (simp add: round_magnitude_def)

lemma round_magnitude_abs [simp]: "round_magnitude \<bar>x\<bar> = round_magnitude x"
  by (simp add: round_magnitude_def)

lemma round_magnitude_zero [simp]: "round_magnitude 0 = 0"
  by (simp add: round_magnitude_def)

lemma round_magnitude_nonneg [simp]: "0 \<le> round_magnitude x"
proof -
  have "0 \<le> \<bar>x\<bar> / quantum x" by simp
  then have "round_half_even 0 \<le> round_half_even (\<bar>x\<bar> / quantum x)"
    by (rule round_half_even_mono)
  then have "0 \<le> round_half_even (\<bar>x\<bar> / quantum x)"
    using round_half_even_of_int [of 0] by simp
  then show ?thesis
    by (simp add: round_magnitude_def)
qed

lemma round_double_minus: "round_double (- x) = dneg (round_double x)"
  by (cases "x = 0") (auto simp add: round_double_def sgn_if)

lemma round_double_zero [simp]: "round_double 0 = Finite 0"
  by (simp add: round_double_def)

lemma round_double_not_NaN [simp]: "round_double x \<noteq> NaN"
  by (simp add: round_double_def)

subsection \<open>The binade of a number\<close>

text \<open>The magnitude scaled by the quantum is below \<open>2 ^ 53\<close>, and the rounded
  magnitude stays within the binade, its upper end included.\<close>

lemma quantum_eq: "quantum x * 2 ^ 53 = 2 powi (max (expo x) (- 1022) + 1)"
proof -
  define m where "m = max (expo x) (- 1022)"
  have "m + 1 = (m - 52) + 53" by simp
  then have "(2::rat) powi (m + 1) = 2 powi ((m - 52) + 53)" by (rule arg_cong)
  also have "\<dots> = 2 powi (m - 52) * 2 powi 53" by (rule p2_add)
  finally show ?thesis by (simp add: quantum_def m_def)
qed

lemma quantum_eq': "quantum x * 2 ^ 52 = 2 powi (max (expo x) (- 1022))"
proof -
  define m where "m = max (expo x) (- 1022)"
  have "m = (m - 52) + 52" by simp
  then have "(2::rat) powi m = 2 powi ((m - 52) + 52)" by (rule arg_cong)
  also have "\<dots> = 2 powi (m - 52) * 2 powi 52" by (rule p2_add)
  finally show ?thesis by (simp add: quantum_def m_def)
qed

lemma abs_less_binade:
  assumes "x \<noteq> 0"
  shows "\<bar>x\<bar> < 2 powi (max (expo x) (- 1022) + 1)"
proof -
  have "\<bar>x\<bar> < 2 powi (expo x + 1)" using assms by (rule expo_bounds)
  also have "\<dots> \<le> 2 powi (max (expo x) (- 1022) + 1)" by (rule p2_mono) simp
  finally show ?thesis .
qed

lemma scaled_less:
  assumes "x \<noteq> 0"
  shows "\<bar>x\<bar> / quantum x < 2 ^ 53"
proof -
  have "\<bar>x\<bar> < quantum x * 2 ^ 53"
    using abs_less_binade [OF assms] by (simp only: quantum_eq)
  then show ?thesis
    by (simp add: pos_divide_less_eq mult.commute)
qed

lemma round_half_even_le:
  assumes "x \<le> of_int n"
  shows "round_half_even x \<le> n"
  using round_half_even_mono [OF assms] by simp

lemma round_half_even_ge:
  assumes "of_int n \<le> x"
  shows "n \<le> round_half_even x"
  using round_half_even_mono [OF assms] by simp

lemma scaled_round_le: "round_half_even (\<bar>x\<bar> / quantum x) \<le> 2 ^ 53"
proof (cases "x = 0")
  case True
  then show ?thesis using round_half_even_of_int [of 0] by simp
next
  case False
  have "\<bar>x\<bar> / quantum x \<le> of_int (2 ^ 53)"
    using scaled_less [OF False] by simp
  then show ?thesis by (rule round_half_even_le)
qed

lemma scaled_round_nonneg: "0 \<le> round_half_even (\<bar>x\<bar> / quantum x)"
  by (rule round_half_even_ge) simp

lemma round_magnitude_le_binade: "round_magnitude x \<le> 2 powi (max (expo x) (- 1022) + 1)"
proof -
  have "(of_int (round_half_even (\<bar>x\<bar> / quantum x)) :: rat) \<le> of_int (2 ^ 53)"
    using scaled_round_le [of x] by (simp only: of_int_le_iff)
  then have "round_magnitude x \<le> 2 ^ 53 * quantum x"
    unfolding round_magnitude_def by (intro mult_right_mono) simp_all
  then show ?thesis
    using quantum_eq [of x] by (simp add: mult.commute)
qed

lemma round_magnitude_ge_binade:
  assumes "x \<noteq> 0" "- 1022 \<le> expo x"
  shows "2 powi (expo x) \<le> round_magnitude x"
proof -
  have m: "max (expo x) (- 1022) = expo x" using assms(2) by simp
  have "quantum x * 2 ^ 52 \<le> \<bar>x\<bar>"
    using expo_bounds(1) [OF assms(1)] by (simp only: quantum_eq' m)
  then have "of_int (2 ^ 52) \<le> \<bar>x\<bar> / quantum x"
    by (simp add: pos_le_divide_eq mult.commute)
  then have "2 ^ 52 \<le> round_half_even (\<bar>x\<bar> / quantum x)"
    by (rule round_half_even_ge)
  then have "(of_int (2 ^ 52) :: rat) \<le> of_int (round_half_even (\<bar>x\<bar> / quantum x))"
    by (simp only: of_int_le_iff)
  then have "2 ^ 52 * quantum x \<le> round_magnitude x"
    unfolding round_magnitude_def by (intro mult_right_mono) simp_all
  then show ?thesis
    using quantum_eq' [of x] by (simp add: mult.commute m)
qed

lemma round_magnitude_mono:
  assumes "\<bar>x\<bar> \<le> \<bar>y\<bar>"
  shows "round_magnitude x \<le> round_magnitude y"
proof (cases "x = 0")
  case True
  then show ?thesis by simp
next
  case False
  then have ny: "y \<noteq> 0" using assms by auto
  have e: "expo x \<le> expo y" using False assms by (rule expo_mono)
  show ?thesis
  proof (cases "max (expo x) (- 1022) = max (expo y) (- 1022)")
    case True
    then have q: "quantum x = quantum y" by (simp add: quantum_def)
    have "\<bar>x\<bar> / quantum y \<le> \<bar>y\<bar> / quantum y"
      using assms by (simp add: divide_right_mono)
    then have "round_half_even (\<bar>x\<bar> / quantum y) \<le> round_half_even (\<bar>y\<bar> / quantum y)"
      by (rule round_half_even_mono)
    then have "(of_int (round_half_even (\<bar>x\<bar> / quantum y)) :: rat) \<le> of_int (round_half_even (\<bar>y\<bar> / quantum y))"
      by (simp only: of_int_le_iff)
    then show ?thesis
      unfolding round_magnitude_def q by (intro mult_right_mono) simp_all
  next
    case neq: False
    with e have lt: "max (expo x) (- 1022) < expo y" and big: "- 1022 \<le> expo y"
      by (auto simp add: max_def split: if_splits)
    have "round_magnitude x \<le> 2 powi (max (expo x) (- 1022) + 1)"
      by (rule round_magnitude_le_binade)
    also have "\<dots> \<le> 2 powi (expo y)"
      using lt by (intro p2_mono) linarith
    also have "\<dots> \<le> round_magnitude y"
      using ny big by (rule round_magnitude_ge_binade)
    finally show ?thesis .
  qed
qed

subsection \<open>Rounding is monotone\<close>

text \<open>The order of the doubles that are not NaN, and rounding with respect to it.\<close>

lemma dle_trans: "dle a b \<Longrightarrow> dle b c \<Longrightarrow> dle a c"
  by (cases a; cases b; cases c) simp_all

lemma dle_dneg [simp]: "dle (dneg a) (dneg b) = dle b a"
  by (cases a; cases b) simp_all

lemma dneg_dneg [simp]: "dneg (dneg a) = a"
  by (cases a) simp_all

lemma not_dlt_dle: "x \<noteq> NaN \<Longrightarrow> y \<noteq> NaN \<Longrightarrow> \<not> dlt y x \<Longrightarrow> dle x y"
  by (cases x; cases y) simp_all

lemma round_double_mono_nonneg:
  assumes "0 \<le> x" "x \<le> y"
  shows "dle (round_double x) (round_double y)"
proof -
  have "\<bar>x\<bar> \<le> \<bar>y\<bar>" using assms by simp
  then have m: "round_magnitude x \<le> round_magnitude y"
    by (rule round_magnitude_mono)
  show ?thesis
  proof (cases "x = 0")
    case True
    then show ?thesis
      using assms by (simp add: round_double_def sgn_if)
  next
    case False
    with assms have "0 < x" "0 < y" by simp_all
    then show ?thesis
      using m by (simp add: round_double_def)
  qed
qed

lemma round_double_mono:
  assumes "x \<le> y"
  shows "dle (round_double x) (round_double y)"
proof -
  have neg: "dle (round_double u) (round_double v)" if "u \<le> v" "v \<le> 0" for u v
  proof -
    have "dle (round_double (- v)) (round_double (- u))"
      using that by (intro round_double_mono_nonneg) simp_all
    then show ?thesis
      by (simp only: round_double_minus dle_dneg)
  qed
  consider "0 \<le> x" | "y \<le> 0" | "x \<le> 0" "0 \<le> y"
    by linarith
  then show ?thesis
  proof cases
    case 1
    then show ?thesis using assms by (rule round_double_mono_nonneg)
  next
    case 2
    with assms show ?thesis by (rule neg)
  next
    case 3
    have "dle (round_double x) (round_double 0)"
      using 3(1) by (intro neg) simp_all
    moreover have "dle (round_double 0) (round_double y)"
      using 3(2) by (intro round_double_mono_nonneg) simp_all
    ultimately show ?thesis by (rule dle_trans)
  qed
qed

subsection \<open>The doubles\<close>

text \<open>A multiple \<open>n * 2 powi k\<close> with \<open>\<bar>n\<bar> \<le> 2 ^ 53\<close> and \<open>- 1074 \<le> k\<close> below the
  overflow threshold is a double, and every finite result of rounding has this form.\<close>

lemma round_magnitude_grid:
  assumes "\<bar>n\<bar> < 2 ^ 53" "- 1074 \<le> k"
  shows "round_magnitude (of_int n * 2 powi k) = \<bar>of_int n * 2 powi k\<bar>"
proof (cases "n = 0")
  case True
  then show ?thesis by simp
next
  case False
  define x :: rat where "x = of_int n * 2 powi k"
  have nz: "x \<noteq> 0" using False by (simp add: x_def)
  have ax: "\<bar>x\<bar> = of_int \<bar>n\<bar> * 2 powi k"
    by (simp add: x_def abs_mult)
  have "(of_int \<bar>n\<bar> :: rat) < of_int (2 ^ 53)"
    using assms(1) by (simp only: of_int_less_iff)
  then have "\<bar>x\<bar> < 2 powi 53 * 2 powi k"
    unfolding ax by (intro mult_strict_right_mono) simp_all
  then have "\<bar>x\<bar> < 2 powi (53 + k)"
    by (simp only: p2_add)
  with expo_bounds(1) [OF nz] have "(2::rat) powi (expo x) < 2 powi (53 + k)"
    by (rule le_less_trans)
  then have "expo x < 53 + k" by (simp only: p2_less_iff)
  define q where "q = max (expo x) (- 1022) - 52"
  have qk: "q \<le> k"
    using \<open>expo x < 53 + k\<close> assms(2) by (simp add: q_def)
  have quantum: "quantum x = 2 powi q"
    by (simp add: quantum_def q_def)
  have "(2::rat) powi k = 2 powi (q + (k - q))" by simp
  also have "\<dots> = 2 powi q * 2 powi (k - q)" by (rule p2_add)
  also have "2 powi (k - q) = (2::rat) ^ nat (k - q)"
    using qk by (simp add: power_int_nonneg_exp)
  finally have k: "(2::rat) powi k = 2 powi q * 2 ^ nat (k - q)" .
  have "\<bar>x\<bar> / quantum x = of_int (\<bar>n\<bar> * 2 ^ nat (k - q))"
    by (simp add: ax quantum k)
  then have "round_magnitude x = of_int (\<bar>n\<bar> * 2 ^ nat (k - q)) * 2 powi q"
    by (simp only: round_magnitude_def round_half_even_of_int quantum)
  also have "\<dots> = \<bar>x\<bar>"
    by (simp add: ax k)
  finally show ?thesis by (simp only: x_def)
qed

lemma round_double_grid_less:
  assumes "\<bar>n\<bar> < 2 ^ 53" "- 1074 \<le> k" "\<bar>of_int n * 2 powi k\<bar> < (2::rat) powi 1024"
  shows "round_double (of_int n * 2 powi k) = Finite (of_int n * 2 powi k)"
proof -
  define x :: rat where "x = of_int n * 2 powi k"
  have m: "round_magnitude x = \<bar>x\<bar>"
    unfolding x_def using assms(1,2) by (rule round_magnitude_grid)
  have "\<not> 2 powi 1024 \<le> \<bar>x\<bar>" using assms(3) by (simp add: x_def)
  moreover have "sgn x * \<bar>x\<bar> = x" by (simp add: sgn_if)
  ultimately have "round_double x = Finite x"
    by (simp only: round_double_def m if_False)
  then show ?thesis by (simp only: x_def)
qed

lemma round_double_grid:
  assumes "\<bar>n\<bar> \<le> 2 ^ 53" "- 1074 \<le> k" "\<bar>of_int n * 2 powi k\<bar> < (2::rat) powi 1024"
  shows "round_double (of_int n * 2 powi k) = Finite (of_int n * 2 powi k)"
proof (cases "\<bar>n\<bar> < 2 ^ 53")
  case True
  then show ?thesis using assms(2,3) by (rule round_double_grid_less)
next
  case False
  with assms(1) have n: "\<bar>n\<bar> = 2 ^ 53" by simp
  define n' where "n' = n div 2"
  from n have "n = 9007199254740992 \<or> n = - 9007199254740992"
    by (simp add: abs_if split: if_splits)
  then have n2: "n = 2 * n'" by (auto simp add: n'_def)
  have eq: "(of_int n :: rat) * 2 powi k = of_int n' * 2 powi (k + 1)"
    by (simp add: n2 p2_Suc)
  have "\<bar>n'\<bar> < 2 ^ 53" using n n2 by simp
  moreover have "- 1074 \<le> k + 1" using assms(2) by simp
  moreover have "\<bar>of_int n' * 2 powi (k + 1)\<bar> < (2::rat) powi 1024"
    using assms(3) by (simp only: eq)
  ultimately have "round_double (of_int n' * 2 powi (k + 1)) = Finite (of_int n' * 2 powi (k + 1))"
    by (rule round_double_grid_less)
  then show ?thesis by (simp only: eq)
qed

lemma round_double_form:
  assumes "round_double x = Finite y"
  obtains n k where "y = of_int n * 2 powi k" "\<bar>n\<bar> \<le> 2 ^ 53" "- 1074 \<le> k"
    "\<bar>y\<bar> < 2 powi 1024" "k = max (expo x) (- 1022) - 52" "\<bar>of_int n * 2 powi k\<bar> = round_magnitude x"
proof -
  define N where "N = round_half_even (\<bar>x\<bar> / quantum x)"
  define k where "k = max (expo x) (- 1022) - 52"
  have N: "0 \<le> N" "N \<le> 2 ^ 53"
    unfolding N_def by (rule scaled_round_nonneg, rule scaled_round_le)
  have m: "round_magnitude x = of_int N * 2 powi k"
    by (simp add: round_magnitude_def N_def k_def quantum_def)
  from assms have small: "\<not> 2 powi 1024 \<le> round_magnitude x" and y: "y = sgn x * round_magnitude x"
    by (auto simp add: round_double_def split: if_splits)
  define s :: int where "s = (if x = 0 then 0 else if 0 < x then 1 else - 1)"
  have sx: "sgn x = of_int s" by (simp add: s_def sgn_if)
  have 1: "y = of_int (s * N) * 2 powi k"
    by (simp add: y m sx)
  have 2: "\<bar>s * N\<bar> \<le> 2 ^ 53"
    using N by (simp add: s_def abs_mult)
  have 3: "- 1074 \<le> k" by (simp add: k_def)
  have "\<bar>y\<bar> \<le> round_magnitude x"
    by (simp add: y abs_mult sgn_if)
  with small have 4: "\<bar>y\<bar> < 2 powi 1024" by simp
  have 5: "\<bar>of_int (s * N) * 2 powi k :: rat\<bar> = round_magnitude x"
  proof (cases "x = 0")
    case True
    then show ?thesis by (simp add: s_def)
  next
    case False
    then show ?thesis using N(1) by (simp add: s_def m abs_mult)
  qed
  from 1 2 3 4 k_def 5 show ?thesis by (rule that)
qed

lemma round_double_representable:
  assumes "round_double x = Finite y"
  shows "representable y"
proof -
  from assms obtain n k where "y = of_int n * 2 powi k" "\<bar>n\<bar> \<le> 2 ^ 53" "- 1074 \<le> k" "\<bar>y\<bar> < 2 powi 1024"
    by (rule round_double_form)
  then show ?thesis
    unfolding representable_def using round_double_grid [of n k] by simp
qed

lemma round_double_is_double [simp]: "is_double (round_double x)"
  by (cases "round_double x") (simp_all add: round_double_representable)

lemma representable_minus [simp]: "representable (- x) = representable x"
  by (cases "round_double x") (simp_all add: representable_def round_double_minus)

lemma representable_zero [simp]: "representable 0"
  by (simp add: representable_def)

lemma representable_form:
  assumes "representable y"
  obtains n where "\<bar>y\<bar> = of_int n * quantum y" "0 \<le> n" "n \<le> 2 ^ 53" "\<bar>y\<bar> < 2 powi 1024"
proof -
  from assms have r: "round_double y = Finite y" by (simp add: representable_def)
  then have small: "\<not> 2 powi 1024 \<le> round_magnitude y" and y: "y = sgn y * round_magnitude y"
    by (auto simp add: round_double_def split: if_splits)
  have "\<bar>y\<bar> = \<bar>sgn y * round_magnitude y\<bar>" using y by simp
  also have "\<dots> = round_magnitude y"
    by (cases "y = 0") (simp_all add: abs_mult abs_sgn_eq)
  finally have a: "\<bar>y\<bar> = round_magnitude y" .
  show ?thesis
  proof (rule that)
    show "\<bar>y\<bar> = of_int (round_half_even (\<bar>y\<bar> / quantum y)) * quantum y"
      using a by (simp add: round_magnitude_def)
    show "0 \<le> round_half_even (\<bar>y\<bar> / quantum y)" by (rule scaled_round_nonneg)
    show "round_half_even (\<bar>y\<bar> / quantum y) \<le> 2 ^ 53" by (rule scaled_round_le)
    show "\<bar>y\<bar> < 2 powi 1024" using small a by simp
  qed
qed

lemma representable_pos_ge:
  assumes "representable y" "0 < y"
  shows "quantum y \<le> y"
proof -
  from assms(1) obtain n where n: "\<bar>y\<bar> = of_int n * quantum y" "0 \<le> n"
    by (rule representable_form)
  have "n \<noteq> 0" using n(1) assms(2) by auto
  with n(2) have "1 \<le> n" by simp
  then have "(1::rat) \<le> of_int n" by simp
  then have "1 * quantum y \<le> of_int n * quantum y"
    by (intro mult_right_mono) simp_all
  then have "quantum y \<le> of_int n * quantum y" by simp
  also have "\<dots> = \<bar>y\<bar>" by (rule n(1) [symmetric])
  also have "\<dots> = y" using assms(2) by simp
  finally show ?thesis .
qed

lemma quantum_mono:
  assumes "x \<noteq> 0" "\<bar>x\<bar> \<le> \<bar>y\<bar>"
  shows "quantum x \<le> quantum y"
proof -
  have "expo x \<le> expo y" using assms by (rule expo_mono)
  then have "max (expo x) (- 1022) - 52 \<le> max (expo y) (- 1022) - 52" by simp
  then show ?thesis unfolding quantum_def by (rule p2_mono)
qed

subsection \<open>The rounding error\<close>

text \<open>Rounding moves a number by at most half of its quantum.\<close>

lemma round_half_even_error: "\<bar>of_int (round_half_even y) - y\<bar> \<le> 1 / 2"
proof -
  have "of_int \<lfloor>y\<rfloor> \<le> y" "y < of_int \<lfloor>y\<rfloor> + 1" by linarith+
  then show ?thesis
    by (auto simp add: round_half_even_def Let_def abs_le_iff)
qed

lemma round_magnitude_error: "\<bar>round_magnitude x - \<bar>x\<bar>\<bar> \<le> quantum x / 2"
proof -
  define y where "y = \<bar>x\<bar> / quantum x"
  have q: "quantum x \<noteq> 0" using quantum_pos [of x] by linarith
  have x: "\<bar>x\<bar> = y * quantum x" by (simp add: y_def q)
  have "round_magnitude x - \<bar>x\<bar> = (of_int (round_half_even y) - y) * quantum x"
    by (simp add: round_magnitude_def x algebra_simps flip: y_def)
  then have "\<bar>round_magnitude x - \<bar>x\<bar>\<bar> = \<bar>of_int (round_half_even y) - y\<bar> * quantum x"
    by (simp add: abs_mult)
  also have "\<dots> \<le> 1 / 2 * quantum x"
    using round_half_even_error [of y] by (intro mult_right_mono) simp_all
  finally show ?thesis by simp
qed

lemma round_double_error:
  assumes "round_double x = Finite g"
  shows "\<bar>g - x\<bar> \<le> quantum x / 2"
proof -
  from assms have g: "g = sgn x * round_magnitude x"
    by (auto simp add: round_double_def split: if_splits)
  consider "x = 0" | "0 < x" | "x < 0" by linarith
  then show ?thesis
  proof cases
    case 1
    then show ?thesis by (simp add: g)
  next
    case 2
    then have "g - x = round_magnitude x - \<bar>x\<bar>" by (simp add: g)
    then show ?thesis using round_magnitude_error [of x] by (simp only:)
  next
    case 3
    then have "g - x = - (round_magnitude x - \<bar>x\<bar>)" by (simp add: g)
    then have "\<bar>g - x\<bar> = \<bar>round_magnitude x - \<bar>x\<bar>\<bar>" by (simp only: abs_minus_cancel)
    then show ?thesis using round_magnitude_error [of x] by (simp only:)
  qed
qed

subsection \<open>One iteration of a loop\<close>

text \<open>With \<open>hv\<close> the double that \<^verbatim>\<open>a / 2\<close> computes: a double above \<open>hv\<close> is at least
  the exact half of \<open>a\<close>, so one subtraction of \<open>a\<close> does not jump below \<open>- hv\<close>; and
  when the quantum of \<^verbatim>\<open>factor\<close> is at most \<open>a\<close> the subtraction moves \<^verbatim>\<open>factor\<close> by
  at least half of \<open>a\<close>. The second loop is the mirror image of the first.\<close>

lemma round_double_pos_not_NegInf: "0 < x \<Longrightarrow> round_double x \<noteq> NegInf"
  by (simp add: round_double_def)

lemma round_double_nonneg: "0 \<le> x \<Longrightarrow> dle (Finite 0) (round_double x)"
  using round_double_mono [of 0 x] by simp

lemma halve_dneg: "halve (dneg a) = dneg (halve a)"
proof (cases a)
  case (Finite x)
  have "- x / 2 = - (x / 2)" by simp
  then show ?thesis by (simp add: Finite round_double_minus)
qed simp_all

lemma halve_not_NaN: "a \<noteq> NaN \<Longrightarrow> halve a \<noteq> NaN"
  by (cases a) simp_all

lemma halve_nonneg: "dgt a (Finite 0) \<Longrightarrow> dle (Finite 0) (halve a)"
  by (cases a) (simp_all add: dgt_def round_double_nonneg)

lemma above_half:
  assumes "representable f" "round_double (a / 2) = Finite hv" "hv < f"
  shows "a / 2 \<le> f"
proof (rule ccontr)
  assume "\<not> a / 2 \<le> f"
  then have "f \<le> a / 2" by simp
  then have "dle (round_double f) (round_double (a / 2))" by (rule round_double_mono)
  then have "f \<le> hv" using assms(1,2) by (simp add: representable_def)
  with assms(3) show False by simp
qed

lemma step_up_bound:
  assumes "representable f" "round_double (a / 2) = Finite hv" "f < - hv"
  shows "dle (round_double (f + a)) (Finite hv)"
proof -
  have "representable (- f)" using assms(1) by simp
  moreover have "hv < - f" using assms(3) by simp
  ultimately have "a / 2 \<le> - f" using assms(2) by (intro above_half)
  then have "f + a \<le> a / 2" by simp
  then have "dle (round_double (f + a)) (round_double (a / 2))" by (rule round_double_mono)
  then show ?thesis by (simp only: assms(2))
qed

lemma step_down:
  assumes f: "representable f" and hv: "round_double (a / 2) = Finite hv"
    and lt: "hv < f" and a: "0 < a" and q: "quantum f \<le> a"
  obtains g where "round_double (f - a) = Finite g" "- hv \<le> g" "g \<le> f - a / 2" "representable g"
proof -
  have half: "a / 2 \<le> f" using f hv lt by (rule above_half)
  then have "- (a / 2) \<le> f - a" by simp
  then have "dle (round_double (- (a / 2))) (round_double (f - a))" by (rule round_double_mono)
  then have lo: "dle (Finite (- hv)) (round_double (f - a))"
    by (simp add: round_double_minus hv)
  have "f - a \<le> f" using a by simp
  then have "dle (round_double (f - a)) (round_double f)" by (rule round_double_mono)
  then have hi: "dle (round_double (f - a)) (Finite f)"
    using f by (simp only: representable_def)
  from lo hi obtain g where g: "round_double (f - a) = Finite g" "- hv \<le> g"
    by (cases "round_double (f - a)") simp_all
  have "g \<le> f - a / 2"
  proof (cases "f - a = 0")
    case True
    with g(1) have "g = 0" by simp
    with True a show ?thesis by simp
  next
    case False
    have "\<bar>f - a\<bar> \<le> \<bar>f\<bar>" using half a by linarith
    with False have "quantum (f - a) \<le> quantum f" by (rule quantum_mono)
    with q have "quantum (f - a) / 2 \<le> a / 2" by simp
    with round_double_error [OF g(1)] have "\<bar>g - (f - a)\<bar> \<le> a / 2" by linarith
    then show ?thesis by linarith
  qed
  moreover from g(1) have "representable g" by (rule round_double_representable)
  ultimately show ?thesis using g by (intro that)
qed

lemma step_up:
  assumes f: "representable f" and hv: "round_double (a / 2) = Finite hv"
    and lt: "f < - hv" and a: "0 < a" and q: "quantum f \<le> a"
  obtains g where "round_double (f + a) = Finite g" "g \<le> hv" "f + a / 2 \<le> g" "representable g"
proof -
  have "representable (- f)" using f by simp
  moreover note hv
  moreover have "hv < - f" using lt by simp
  moreover note a
  moreover have "quantum (- f) \<le> a" using q by simp
  ultimately obtain g where g: "round_double (- f - a) = Finite g" "- hv \<le> g"
      "g \<le> - f - a / 2" "representable g"
    by (rule step_down)
  have "f + a = - (- f - a)" by simp
  then have "round_double (f + a) = dneg (round_double (- f - a))"
    by (simp only: round_double_minus)
  then have "round_double (f + a) = Finite (- g)" by (simp add: g(1))
  moreover have "- g \<le> hv" using g(2) by simp
  moreover have "f + a / 2 \<le> - g" using g(3) by simp
  moreover have "representable (- g)" using g(4) by simp
  ultimately show ?thesis by (rule that)
qed

text \<open>The loops end when every iteration moves \<^verbatim>\<open>factor\<close> by half of \<open>a\<close> or
  more: the distance to the far end of the target interval, counted in steps of
  \<open>a / 2\<close>, decreases with every iteration and bounds their number.\<close>

lemma floor_measure:
  fixes x y :: rat
  assumes "0 \<le> x" "x + 1 \<le> y"
  shows "nat \<lfloor>x\<rfloor> < nat \<lfloor>y\<rfloor>"
proof -
  have "\<lfloor>x\<rfloor> + 1 = \<lfloor>x + 1\<rfloor>" by simp
  also have "\<dots> \<le> \<lfloor>y\<rfloor>" using assms(2) by (rule floor_mono)
  finally have "\<lfloor>x\<rfloor> < \<lfloor>y\<rfloor>" by simp
  moreover have "0 \<le> \<lfloor>x\<rfloor>" using assms(1) by simp
  ultimately show ?thesis by linarith
qed

lemma tilt_loop_pos_returns:
  assumes a: "0 < a" and hv: "round_double (a / 2) = Finite hv"
  shows "representable f \<Longrightarrow> - hv \<le> f \<Longrightarrow> (hv < f \<longrightarrow> quantum f \<le> a) \<Longrightarrow>
    \<exists>r k. tilt_loop_pos (Finite a) (Finite f) n = Some (Finite r, n + k) \<and> \<bar>r\<bar> \<le> hv \<and>
      k \<le> nat \<lfloor>(f + hv) * 2 / a\<rfloor>"
proof (induction "nat \<lfloor>(f + hv) * 2 / a\<rfloor>" arbitrary: f n rule: less_induct)
  case less
  show ?case
  proof (cases "hv < f")
    case False
    with less.prems(2) have "\<bar>f\<bar> \<le> hv" by simp
    moreover from this have "tilt_loop_pos (Finite a) (Finite f) n = Some (Finite f, n + 0)"
      by (subst tilt_loop_pos.simps) (simp add: dgt_def hv)
    ultimately show ?thesis by blast
  next
    case True
    with less.prems(3) have q: "quantum f \<le> a" by simp
    from less.prems(1) hv True a q obtain g where g: "round_double (f - a) = Finite g"
        "- hv \<le> g" "g \<le> f - a / 2" "representable g"
      by (rule step_down)
    have hv0: "0 \<le> hv" using round_double_nonneg [of "a / 2"] a by (simp add: hv)
    have "dgt (fabs (Finite f)) (halve (Finite a))"
      using True hv0 by (simp add: dgt_def hv)
    then have eq: "tilt_loop_pos (Finite a) (Finite f) n = tilt_loop_pos (Finite a) (Finite g) (Suc n)"
      by (subst tilt_loop_pos.simps) (simp add: dsub_def g(1))
    have "(g + hv) * 2 / a + 1 = (g + a / 2 + hv) * 2 / a"
      using a by (simp add: field_simps)
    also have "\<dots> \<le> (f + hv) * 2 / a"
      using g(3) a by (intro divide_right_mono mult_right_mono) simp_all
    finally have m: "nat \<lfloor>(g + hv) * 2 / a\<rfloor> < nat \<lfloor>(f + hv) * 2 / a\<rfloor>"
      using g(2) a by (intro floor_measure) simp_all
    moreover have "hv < g \<longrightarrow> quantum g \<le> a"
    proof
      assume "hv < g"
      with hv0 have "g \<noteq> 0" by simp
      moreover from \<open>hv < g\<close> hv0 have "\<bar>g\<bar> \<le> \<bar>f\<bar>"
        using g(3) a by linarith
      ultimately have "quantum g \<le> quantum f" by (rule quantum_mono)
      with q show "quantum g \<le> a" by simp
    qed
    ultimately have "\<exists>r k. tilt_loop_pos (Finite a) (Finite g) (Suc n) = Some (Finite r, Suc n + k) \<and>
        \<bar>r\<bar> \<le> hv \<and> k \<le> nat \<lfloor>(g + hv) * 2 / a\<rfloor>"
      using g(4) g(2) by (intro less.hyps)
    then obtain r k where r: "tilt_loop_pos (Finite a) (Finite g) (Suc n) = Some (Finite r, Suc n + k)"
        "\<bar>r\<bar> \<le> hv" "k \<le> nat \<lfloor>(g + hv) * 2 / a\<rfloor>"
      by blast
    have "tilt_loop_pos (Finite a) (Finite f) n = Some (Finite r, n + (k + 1))"
      by (simp add: eq r(1))
    moreover have "k + 1 \<le> nat \<lfloor>(f + hv) * 2 / a\<rfloor>"
      using r(3) m by linarith
    ultimately show ?thesis using r(2) by blast
  qed
qed

lemma tilt_loop_neg_returns:
  assumes a: "0 < a" and hv: "round_double (a / 2) = Finite hv"
  shows "representable f \<Longrightarrow> f \<le> hv \<Longrightarrow> (f < - hv \<longrightarrow> quantum f \<le> a) \<Longrightarrow>
    \<exists>r k. tilt_loop_neg (Finite a) (Finite f) n = Some (Finite r, n + k) \<and> \<bar>r\<bar> \<le> hv \<and>
      k \<le> nat \<lfloor>(hv - f) * 2 / a\<rfloor>"
proof (induction "nat \<lfloor>(hv - f) * 2 / a\<rfloor>" arbitrary: f n rule: less_induct)
  case less
  have "halve (dneg (Finite a)) = dneg (halve (Finite a))" by (rule halve_dneg)
  also have "\<dots> = Finite (- hv)" by (simp add: hv)
  finally have h: "halve (dneg (Finite a)) = Finite (- hv)" .
  show ?case
  proof (cases "f < - hv")
    case False
    with less.prems(2) have "\<bar>f\<bar> \<le> hv" by simp
    moreover from False have "tilt_loop_neg (Finite a) (Finite f) n = Some (Finite f, n + 0)"
      by (subst tilt_loop_neg.simps) (simp only: h, simp)
    ultimately show ?thesis by blast
  next
    case True
    with less.prems(3) have q: "quantum f \<le> a" by simp
    from less.prems(1) hv True a q obtain g where g: "round_double (f + a) = Finite g"
        "g \<le> hv" "f + a / 2 \<le> g" "representable g"
      by (rule step_up)
    have hv0: "0 \<le> hv" using round_double_nonneg [of "a / 2"] a by (simp add: hv)
    have eq: "tilt_loop_neg (Finite a) (Finite f) n = tilt_loop_neg (Finite a) (Finite g) (Suc n)"
      using True by (subst tilt_loop_neg.simps) (simp only: h, simp add: g(1))
    have "(hv - g) * 2 / a + 1 = (hv - (g - a / 2)) * 2 / a"
      using a by (simp add: field_simps)
    also have "\<dots> \<le> (hv - f) * 2 / a"
      using g(3) a by (intro divide_right_mono mult_right_mono) simp_all
    finally have m: "nat \<lfloor>(hv - g) * 2 / a\<rfloor> < nat \<lfloor>(hv - f) * 2 / a\<rfloor>"
      using g(2) a by (intro floor_measure) simp_all
    moreover have "g < - hv \<longrightarrow> quantum g \<le> a"
    proof
      assume "g < - hv"
      with hv0 have "g \<noteq> 0" by simp
      moreover from \<open>g < - hv\<close> hv0 have "\<bar>g\<bar> \<le> \<bar>f\<bar>"
        using g(3) a by linarith
      ultimately have "quantum g \<le> quantum f" by (rule quantum_mono)
      with q show "quantum g \<le> a" by simp
    qed
    ultimately have "\<exists>r k. tilt_loop_neg (Finite a) (Finite g) (Suc n) = Some (Finite r, Suc n + k) \<and>
        \<bar>r\<bar> \<le> hv \<and> k \<le> nat \<lfloor>(hv - g) * 2 / a\<rfloor>"
      using g(4) g(2) by (intro less.hyps)
    then obtain r k where r: "tilt_loop_neg (Finite a) (Finite g) (Suc n) = Some (Finite r, Suc n + k)"
        "\<bar>r\<bar> \<le> hv" "k \<le> nat \<lfloor>(hv - g) * 2 / a\<rfloor>"
      by blast
    have "tilt_loop_neg (Finite a) (Finite f) n = Some (Finite r, n + (k + 1))"
      by (simp add: eq r(1))
    moreover have "k + 1 \<le> nat \<lfloor>(hv - f) * 2 / a\<rfloor>"
      using r(3) m by linarith
    ultimately show ?thesis using r(2) by blast
  qed
qed

subsection \<open>What the loops return\<close>

text \<open>A loop whose subtraction rounds back to \<^verbatim>\<open>factor\<close> does not end. A loop that
  ends returns a value within the bound, whatever the number of its iterations.\<close>

lemma tilt_loop_pos_stuck:
  assumes "dgt (fabs factor) (halve a)" "dsub factor a = factor"
  shows "tilt_loop_pos a factor n = None"
proof -
  have never: "\<not> (a' = a \<and> f' = factor)" if "tilt_loop_pos a' f' n' = Some r" for a' f' n' r
    using that
  proof (induction rule: tilt_loop_pos.raw_induct [rotated 1, consumes 1, case_names step])
    case (step loop a' f' n' r)
    show ?case
    proof
      assume "a' = a \<and> f' = factor"
      with step.hyps assms have "loop a factor (n' + 1) = Some r" by simp
      then have "\<not> (a = a \<and> factor = factor)" by (rule step.IH)
      then show False by simp
    qed
  qed
  show ?thesis
  proof (cases "tilt_loop_pos a factor n")
    case None
    then show ?thesis .
  next
    case (Some r)
    then have "\<not> (a = a \<and> factor = factor)" by (rule never)
    then show ?thesis by simp
  qed
qed

lemma dsub_not_NaN: "d \<noteq> NaN \<Longrightarrow> dsub d (Finite x) \<noteq> NaN"
  by (cases d) (simp_all add: dsub_def)

lemma fabs_not_NaN: "d \<noteq> NaN \<Longrightarrow> fabs d \<noteq> NaN"
  by (cases d) simp_all

lemma tilt_loop_pos_bound:
  assumes "tilt_loop_pos a d n = Some res"
  shows "dgt a (Finite 0) \<longrightarrow> d \<noteq> NaN \<longrightarrow> dle (fabs (fst res)) (halve a)"
  using assms
proof (induction rule: tilt_loop_pos.raw_induct [rotated 1, consumes 1, case_names step])
  case (step loop a d n res)
  show ?case
  proof (intro impI)
    assume a: "dgt a (Finite 0)" and d: "d \<noteq> NaN"
    from a have an: "a \<noteq> NaN" by (cases a) (simp_all add: dgt_def)
    show "dle (fabs (fst res)) (halve a)"
    proof (cases "dgt (fabs d) (halve a)")
      case True
      with step.hyps have l: "loop a (dsub d a) (n + 1) = Some res" by simp
      from True a obtain av where "a = Finite av"
        by (cases a; cases d) (simp_all add: dgt_def)
      with d have "dsub d a \<noteq> NaN" by (simp add: dsub_not_NaN)
      with step.IH [OF l] a show ?thesis by simp
    next
      case False
      with step.hyps have "fst res = d" by auto
      moreover have "dle (fabs d) (halve a)"
        using False d an by (intro not_dlt_dle) (simp_all add: dgt_def fabs_not_NaN halve_not_NaN)
      ultimately show ?thesis by simp
    qed
  qed
qed

lemma neg_step_inv:
  assumes a: "dgt a (Finite 0)" and d: "is_double d" "d \<noteq> NaN"
    and guard: "dlt d (halve (dneg a))"
  shows "is_double (dadd d a) \<and> dadd d a \<noteq> NaN \<and> dle (dadd d a) (halve a)"
proof (cases a)
  case (Finite av)
  with a have av: "0 < av" by (simp add: dgt_def)
  have h: "halve (dneg a) = dneg (round_double (av / 2))"
    by (simp only: halve_dneg Finite halve.simps)
  show ?thesis
  proof (cases d)
    case f: (Finite f)
    show ?thesis
    proof (cases "round_double (av / 2)")
      case hv: (Finite hv)
      from guard have "f < - hv" by (simp add: h hv f)
      with d(1) have "dle (round_double (f + av)) (Finite hv)"
        using hv by (intro step_up_bound) (simp_all add: f)
      then show ?thesis by (simp add: Finite f hv)
    next
      case PosInf
      have "dle (round_double (f + av)) PosInf"
        by (cases "round_double (f + av)") simp_all
      then show ?thesis by (simp add: Finite f PosInf)
    next
      case NegInf
      with round_double_pos_not_NegInf [of "av / 2"] av show ?thesis by simp
    next
      case NaN
      then show ?thesis by simp
    qed
  next
    case PosInf
    with guard show ?thesis by (cases "halve (dneg a)") simp_all
  next
    case NegInf
    have "dle NegInf (round_double (av / 2))"
      by (cases "round_double (av / 2)") simp_all
    then show ?thesis by (simp add: Finite NegInf)
  next
    case NaN
    with d show ?thesis by simp
  qed
next
  case PosInf
  with guard show ?thesis by (cases d) simp_all
next
  case NegInf
  with a show ?thesis by (simp add: dgt_def)
next
  case NaN
  with a show ?thesis by (simp add: dgt_def)
qed

lemma neg_exit:
  assumes "dle d h" "\<not> dlt d (dneg h)"
  shows "dle (fabs d) h"
  using assms by (cases d; cases h) auto

lemma tilt_loop_neg_bound:
  assumes "tilt_loop_neg a d n = Some res"
  shows "dgt a (Finite 0) \<longrightarrow> is_double d \<longrightarrow> d \<noteq> NaN \<longrightarrow> dle d (halve a) \<longrightarrow>
    dle (fabs (fst res)) (halve a)"
  using assms
proof (induction rule: tilt_loop_neg.raw_induct [rotated 1, consumes 1, case_names step])
  case (step loop a d n res)
  show ?case
  proof (intro impI)
    assume a: "dgt a (Finite 0)" and d: "is_double d" "d \<noteq> NaN" "dle d (halve a)"
    show "dle (fabs (fst res)) (halve a)"
    proof (cases "dlt d (halve (dneg a))")
      case True
      with step.hyps have l: "loop a (dadd d a) (n + 1) = Some res" by simp
      from a d(1,2) True have "is_double (dadd d a) \<and> dadd d a \<noteq> NaN \<and> dle (dadd d a) (halve a)"
        by (rule neg_step_inv)
      with step.IH [OF l] a show ?thesis by simp
    next
      case False
      with step.hyps have "fst res = d" by auto
      moreover have "dle (fabs d) (halve a)"
        using d(3) False by (intro neg_exit) (simp_all add: halve_dneg)
      ultimately show ?thesis by simp
    qed
  qed
qed

lemma clamp_bound:
  assumes "dgt a (Finite 0)" "dle (fabs r) (halve a)"
  shows "dle (fabs (if dlt (fabs r) eps then Finite 0 else r)) (halve a)"
  using assms halve_nonneg [of a] by simp

lemma tilt_factor_in_range:
  assumes "tilt_factor matrix i j = Some (r, n)"
    and a: "dgt (matrix i i) (Finite 0)" and d: "is_double (matrix i j)" "matrix i j \<noteq> NaN"
  shows "dle (fabs r) (halve (matrix i i))"
proof (cases "dge (matrix i j) (Finite 0)")
  case True
  with assms(1) obtain r0 where r0: "tilt_loop_pos (matrix i i) (matrix i j) 0 = Some (r0, n)"
      and r: "r = (if dlt (fabs r0) (round_double (1 / 10 ^ 15)) then Finite 0 else r0)"
    by (auto simp add: tilt_factor_def Let_def split: if_splits option.splits)
  from tilt_loop_pos_bound [OF r0] a d(2) have "dle (fabs r0) (halve (matrix i i))" by simp
  with a show ?thesis unfolding r by (rule clamp_bound)
next
  case False
  with assms(1) obtain r0 where r0: "tilt_loop_neg (matrix i i) (matrix i j) 0 = Some (r0, n)"
      and r: "r = (if dlt (fabs r0) (round_double (1 / 10 ^ 15)) then Finite 0 else r0)"
    by (auto simp add: tilt_factor_def Let_def split: if_splits option.splits)
  from False d(2) have "dle (matrix i j) (Finite 0)"
    by (cases "matrix i j") (simp_all add: dge_def)
  then have "dle (matrix i j) (halve (matrix i i))"
    using halve_nonneg [OF a] by (rule dle_trans)
  with tilt_loop_neg_bound [OF r0] a d have "dle (fabs r0) (halve (matrix i i))" by simp
  with a show ?thesis unfolding r by (rule clamp_bound)
qed

lemma quantum_le_of_ratio:
  assumes a: "representable a" "0 < a" and f: "f \<noteq> 0" "\<bar>f\<bar> \<le> 2 ^ 52 * a"
  shows "quantum f \<le> a"
proof (cases "- 1022 \<le> expo f")
  case True
  then have m: "max (expo f) (- 1022) = expo f" by simp
  have "quantum f * 2 ^ 52 = 2 powi (expo f)"
    by (simp only: quantum_eq' m)
  also have "\<dots> \<le> \<bar>f\<bar>" using f(1) by (rule expo_bounds)
  also have "\<dots> \<le> 2 ^ 52 * a" by fact
  finally show ?thesis by simp
next
  case False
  then have "max (expo f) (- 1022) = max (expo a) (- 1022) \<or> max (expo f) (- 1022) \<le> max (expo a) (- 1022)"
    by simp
  then have "max (expo f) (- 1022) - 52 \<le> max (expo a) (- 1022) - 52" by auto
  then have "quantum f \<le> quantum a" unfolding quantum_def by (rule p2_mono)
  also have "\<dots> \<le> a" using a by (rule representable_pos_ge)
  finally show ?thesis .
qed

lemma half_finite:
  assumes "representable a" "0 < a"
  obtains hv where "round_double (a / 2) = Finite hv" "0 \<le> hv" "hv \<le> a"
proof -
  have "a / 2 \<le> a" using assms(2) by simp
  then have "dle (round_double (a / 2)) (round_double a)" by (rule round_double_mono)
  then have hi: "dle (round_double (a / 2)) (Finite a)"
    using assms(1) by (simp only: representable_def)
  have lo: "dle (Finite 0) (round_double (a / 2))"
    using assms(2) by (intro round_double_nonneg) simp
  from lo hi obtain hv where "round_double (a / 2) = Finite hv" "0 \<le> hv" "hv \<le> a"
    by (cases "round_double (a / 2)") simp_all
  then show ?thesis by (rule that)
qed

text \<open>Halving a double that is not below \<open>2 powi - 1021\<close> is exact.\<close>

lemma halve_exact:
  assumes "representable a" "2 powi (- 1021) \<le> a"
  shows "round_double (a / 2) = Finite (a / 2)"
proof -
  have pos: "0 < a"
    using assms(2) zero_less_power_int [of "2::rat" "- 1021"] by linarith
  from assms(1) obtain n where n: "\<bar>a\<bar> = of_int n * quantum a" "0 \<le> n" "n \<le> 2 ^ 53"
      "\<bar>a\<bar> < 2 powi 1024"
    by (rule representable_form)
  define k where "k = max (expo a) (- 1022) - 52"
  have q: "quantum a = 2 powi k" by (simp add: quantum_def k_def)
  have nz: "a \<noteq> 0" using pos by simp
  have "(2::rat) powi (- 1021) \<le> \<bar>a\<bar>" using assms(2) pos by simp
  also have "\<dots> < 2 powi (expo a + 1)" using nz by (rule expo_bounds)
  finally have "- 1021 < expo a + 1" by (simp only: p2_less_iff)
  then have k: "- 1074 \<le> k - 1" by (simp add: k_def)
  have "a = \<bar>a\<bar>" using pos by simp
  also have "\<dots> = of_int n * quantum a" by (rule n(1))
  finally have a: "a = of_int n * 2 powi k" unfolding q [symmetric] .
  have "(2::rat) powi k = 2 powi ((k - 1) + 1)" by simp
  also have "\<dots> = 2 * 2 powi (k - 1)" by (rule p2_Suc)
  finally have "a / 2 = of_int n * 2 powi (k - 1)" using a by simp
  moreover have "\<bar>n\<bar> \<le> 2 ^ 53" using n(2,3) by simp
  moreover have "\<bar>a / 2\<bar> < 2 powi 1024" using n(4) pos by simp
  ultimately show ?thesis
    using round_double_grid [of n "k - 1"] k by simp
qed

lemma iterations_le:
  fixes x a hv :: rat
  assumes "k \<le> nat \<lfloor>(x + hv) * 2 / a\<rfloor>" "0 < a" "hv \<le> a" "0 \<le> x + hv"
  shows "of_nat k \<le> 2 * x / a + 2"
proof -
  have nn: "0 \<le> (x + hv) * 2 / a" using assms(2,4) by simp
  have "(of_nat k :: rat) \<le> of_nat (nat \<lfloor>(x + hv) * 2 / a\<rfloor>)"
    using assms(1) by (simp only: of_nat_le_iff)
  also have "\<dots> = of_int \<lfloor>(x + hv) * 2 / a\<rfloor>"
    using nn by simp
  also have "\<dots> \<le> (x + hv) * 2 / a" by (rule of_int_floor_le)
  also have "\<dots> \<le> (x + a) * 2 / a"
    using assms(2,3) by (intro divide_right_mono mult_right_mono) simp_all
  also have "\<dots> = 2 * x / a + 2"
    using assms(2) by (simp add: field_simps)
  finally show ?thesis .
qed

lemma tilt_factor_returns:
  assumes "i \<noteq> j" and a: "matrix i i = Finite a" "representable a" "0 < a"
    and f: "matrix i j = Finite f" "representable f" "\<bar>f\<bar> \<le> 2 ^ 52 * a"
  shows "\<exists>r k. tilt_factor matrix i j = Some (r, k) \<and> of_nat k \<le> 2 * \<bar>f\<bar> / a + 2"
proof -
  from a(2,3) obtain hv where hv: "round_double (a / 2) = Finite hv" "0 \<le> hv" "hv \<le> a"
    by (rule half_finite)
  have q: "f \<noteq> 0 \<longrightarrow> quantum f \<le> a"
    using a(2,3) f(3) by (auto intro: quantum_le_of_ratio)
  show ?thesis
  proof (cases "0 \<le> f")
    case True
    have "\<exists>r k. tilt_loop_pos (Finite a) (Finite f) 0 = Some (Finite r, 0 + k) \<and> \<bar>r\<bar> \<le> hv \<and>
        k \<le> nat \<lfloor>(f + hv) * 2 / a\<rfloor>"
      using a(3) hv(1) f(2) True hv(2) q by (intro tilt_loop_pos_returns) auto
    then obtain r k where r: "tilt_loop_pos (Finite a) (Finite f) 0 = Some (Finite r, k)"
        and k: "k \<le> nat \<lfloor>(f + hv) * 2 / a\<rfloor>"
      by auto
    from k a(3) hv(3) have "of_nat k \<le> 2 * f / a + 2"
      using True hv(2) by (intro iterations_le [of k f hv a]) simp_all
    then have "of_nat k \<le> 2 * \<bar>f\<bar> / a + 2" using True by simp
    with r show ?thesis
      using True assms(1) by (auto simp add: tilt_factor_def a(1) f(1) dge_def)
  next
    case False
    have "\<exists>r k. tilt_loop_neg (Finite a) (Finite f) 0 = Some (Finite r, 0 + k) \<and> \<bar>r\<bar> \<le> hv \<and>
        k \<le> nat \<lfloor>(hv - f) * 2 / a\<rfloor>"
      using a(3) hv(1) f(2) False hv(2) q by (intro tilt_loop_neg_returns) auto
    then obtain r k where r: "tilt_loop_neg (Finite a) (Finite f) 0 = Some (Finite r, k)"
        and k: "k \<le> nat \<lfloor>(- f + hv) * 2 / a\<rfloor>"
      by (auto simp add: algebra_simps)
    from k a(3) hv(3) have "of_nat k \<le> 2 * (- f) / a + 2"
      using False hv(2) by (intro iterations_le [of k "- f" hv a]) simp_all
    then have "of_nat k \<le> 2 * \<bar>f\<bar> / a + 2" using False by simp
    with r show ?thesis
      using False assms(1) by (auto simp add: tilt_factor_def a(1) f(1) dge_def)
  qed
qed

text \<open>The overflow threshold \<open>2 powi 1024\<close> written with fewer multiplications, for
  the evaluation of the examples.\<close>

lemma round_double_code [code]:
  "round_double x =
     (if (2 ^ 32) ^ 32 \<le> round_magnitude x then (if 0 < x then PosInf else NegInf)
      else Finite (sgn x * round_magnitude x))"
  by (simp add: round_double_def)

text \<open>
  Claim C10, as the claim states it. The matrix has the positive diagonal entry
  \<open>a = 1\<close> and the entry \<open>10 ^ 17\<close> in row 0, column 1; both are doubles. Between
  \<open>2 ^ 56\<close> and \<open>2 ^ 57\<close> neighbouring doubles are 16 apart, so \<^verbatim>\<open>factor -= a\<close> rounds
  back to \<open>10 ^ 17\<close>: the first loop never changes \<^verbatim>\<open>factor\<close>, and
  \<^verbatim>\<open>tilt_factor(matrix, 0, 1)\<close> does not return.
\<close>

theorem tilt_factor_large_tilt_counterexample:
  "cell_matrix 1 (10 ^ 17) 0 0 = Finite 1 \<and>
   cell_matrix 1 (10 ^ 17) 0 1 = Finite (10 ^ 17) \<and>
   is_double (Finite 1) \<and> is_double (Finite (10 ^ 17)) \<and>
   dgt (Finite 1) (Finite 0) \<and>
   dsub (Finite (10 ^ 17)) (Finite 1) = Finite (10 ^ 17) \<and>
   tilt_factor (cell_matrix 1 (10 ^ 17)) 0 1 = None"
proof -
  have m: "cell_matrix 1 (10 ^ 17) 0 0 = Finite 1" "cell_matrix 1 (10 ^ 17) 0 1 = Finite (10 ^ 17)"
    by (simp_all add: cell_matrix_def)
  have d: "is_double (Finite 1)" "is_double (Finite (10 ^ 17))" "dgt (Finite 1) (Finite 0)"
    by code_simp+
  have s: "dsub (Finite (10 ^ 17)) (Finite 1) = Finite (10 ^ 17)"
    by code_simp
  have g: "dgt (fabs (Finite (10 ^ 17))) (halve (Finite 1))"
    by code_simp
  have "tilt_loop_pos (Finite 1) (Finite (10 ^ 17)) 0 = None"
    using g s by (rule tilt_loop_pos_stuck)
  moreover have "dge (Finite (10 ^ 17)) (Finite 0)"
    by code_simp
  ultimately have "tilt_factor (cell_matrix 1 (10 ^ 17)) 0 1 = None"
    by (simp add: tilt_factor_def cell_matrix_def)
  with m d s show ?thesis by simp
qed

text \<open>
  Claim C10, amended. The matrix holds doubles, \<open>i \<noteq> j\<close>, the diagonal entry
  \<open>a = matrix[i][i]\<close> is greater than 0 (it may be infinite) and \<open>matrix[i][j]\<close> is not
  a NaN. Whenever \<^verbatim>\<open>tilt_factor(matrix, i, j)\<close> returns, the absolute value of the result
  is at most \<^verbatim>\<open>a / 2\<close> as the code computes it, the double nearest to half the
  diagonal entry, which is that half itself when \<open>a\<close> is not below \<open>2 powi - 1021\<close>.
  And the call does return, with such a result and after at most
  \<open>2 * \<bar>matrix[i][j]\<bar> / a + 2\<close> iterations of its loop, when both entries are finite and
  \<open>\<bar>matrix[i][j]\<bar> \<le> 2 ^ 52 * a\<close>: then \<open>a\<close> is at least the distance between neighbouring
  doubles around \<^verbatim>\<open>factor\<close>, and every iteration moves \<^verbatim>\<open>factor\<close> by half of \<open>a\<close> or
  more.
\<close>

theorem tilt_factor_bounded:
  assumes "i \<noteq> j" "dgt (matrix i i) (Finite 0)" "is_double (matrix i i)"
    "is_double (matrix i j)" "matrix i j \<noteq> NaN"
  shows "(tilt_factor matrix i j = Some (r, n) \<longrightarrow> dle (fabs r) (halve (matrix i i))) \<and>
    (matrix i i = Finite a \<longrightarrow> 2 powi (- 1021) \<le> a \<longrightarrow> halve (matrix i i) = Finite (a / 2)) \<and>
    (matrix i i = Finite a \<longrightarrow> matrix i j = Finite f \<longrightarrow> \<bar>f\<bar> \<le> 2 ^ 52 * a \<longrightarrow>
       (\<exists>r' n'. tilt_factor matrix i j = Some (r', n') \<and> dle (fabs r') (halve (matrix i i)) \<and>
          of_nat n' \<le> 2 * \<bar>f\<bar> / a + 2))"
proof (intro conjI impI)
  assume a: "matrix i i = Finite a" and "2 powi (- 1021) \<le> a"
  moreover from assms(3) a have "representable a" by simp
  ultimately show "halve (matrix i i) = Finite (a / 2)"
    by (simp add: halve_exact)
next
  assume "tilt_factor matrix i j = Some (r, n)"
  then show "dle (fabs r) (halve (matrix i i))"
    using assms(2,4,5) by (rule tilt_factor_in_range)
next
  assume a: "matrix i i = Finite a" and f: "matrix i j = Finite f" and r: "\<bar>f\<bar> \<le> 2 ^ 52 * a"
  from assms(2,3,4) have "0 < a" "representable a" "representable f"
    by (simp_all add: a f dgt_def)
  with assms(1) a f r obtain r' n' where r': "tilt_factor matrix i j = Some (r', n')"
      "of_nat n' \<le> 2 * \<bar>f\<bar> / a + 2"
    using tilt_factor_returns [of i j matrix a f] by auto
  from r'(1) have "dle (fabs r') (halve (matrix i i))"
    using assms(2,4,5) by (rule tilt_factor_in_range)
  with r' show "\<exists>r' n'. tilt_factor matrix i j = Some (r', n') \<and>
      dle (fabs r') (halve (matrix i i)) \<and> of_nat n' \<le> 2 * \<bar>f\<bar> / a + 2"
    by auto
qed

theorem tilt_factor_bounded_witness:
  "dgt (cell_matrix 1 (7 / 4) 0 0) (Finite 0) \<and>
   is_double (cell_matrix 1 (7 / 4) 0 0) \<and>
   is_double (cell_matrix 1 (7 / 4) 0 1) \<and>
   cell_matrix 1 (7 / 4) 0 1 \<noteq> NaN \<and>
   cell_matrix 1 (7 / 4) 0 0 = Finite 1 \<and>
   cell_matrix 1 (7 / 4) 0 1 = Finite (7 / 4) \<and>
   tilt_factor (cell_matrix 1 (7 / 4)) 0 1 = Some (Finite (- 1 / 4), 2) \<and>
   dle (fabs (Finite (- 1 / 4))) (halve (cell_matrix 1 (7 / 4) 0 0)) \<and>
   halve (cell_matrix 1 (7 / 4) 0 0) = Finite (1 / 2)"
proof -
  have h: "(0::nat) \<noteq> 1" "dgt (cell_matrix 1 (7 / 4) 0 0) (Finite 0)"
      "is_double (cell_matrix 1 (7 / 4) 0 0)" "is_double (cell_matrix 1 (7 / 4) 0 1)"
      "cell_matrix 1 (7 / 4) 0 1 \<noteq> NaN"
    by code_simp+
  have m: "cell_matrix 1 (7 / 4) 0 0 = Finite 1" "cell_matrix 1 (7 / 4) 0 1 = Finite (7 / 4)"
    by (simp_all add: cell_matrix_def)
  have v: "tilt_factor (cell_matrix 1 (7 / 4)) 0 1 = Some (Finite (- 1 / 4), 2)"
    by code_simp
  have "\<bar>7 / 4\<bar> \<le> 2 ^ 52 * (1::rat)" by simp
  with tilt_factor_bounded [where i = 0 and j = 1 and matrix = "cell_matrix 1 (7 / 4)"
      and r = "Finite (- 1 / 4)" and n = 2 and a = 1 and f = "7 / 4", OF h] m v
  have "dle (fabs (Finite (- 1 / 4))) (halve (cell_matrix 1 (7 / 4) 0 0)) \<and>
      halve (cell_matrix 1 (7 / 4) 0 0) = Finite (1 / 2)"
    by simp
  with h m v show ?thesis by simp
qed


end
